theory Spec2Isabelle
  imports
    Main
    "HOL-Library.Word"
    "HOL-Library.AList"
    "HOL-Library.Char_ord"
    "HOL-Library.List_Lexorder"
begin

section \<open>Strings\<close>

text \<open>
  The Python string methods that \<^verbatim>\<open>db.py\<close> calls. Strings are lists of 8-bit
  characters; the methods are modelled on ASCII text. For the three tests the source makes
  (\<^verbatim>\<open>lower().startswith('https')\<close>, \<^verbatim>\<open>lower() not in ('create_array', 'remove')\<close>,
  \<^verbatim>\<open>lower().startswith('create_array')\<close>) that is no restriction: no character outside
  ASCII has a lower-case form among the letters of these words.
\<close>

definition lower_char :: "char \<Rightarrow> char" where
  "lower_char c =
     (if CHR ''A'' \<le> c \<and> c \<le> CHR ''Z'' then char_of (of_char c + (32::nat)) else c)"

definition lower :: "string \<Rightarrow> string" where
  "lower s = map lower_char s"

definition startswith :: "string \<Rightarrow> string \<Rightarrow> bool" where
  "startswith s p \<longleftrightarrow> take (length p) s = p"

text \<open>\<^verbatim>\<open>sep.join(xs)\<close>\<close>

fun join :: "string \<Rightarrow> string list \<Rightarrow> string" where
  "join sep [] = []"
| "join sep [x] = x"
| "join sep (x # y # ys) = x @ sep @ join sep (y # ys)"

text \<open>\<^verbatim>\<open>s.split()\<close>: the maximal runs of characters that are not white space.\<close>

definition is_space :: "char \<Rightarrow> bool" where
  "is_space c \<longleftrightarrow>
     c \<in> set [CHR 0x09, CHR 0x0A, CHR 0x0B, CHR 0x0C, CHR 0x0D,
               CHR 0x1C, CHR 0x1D, CHR 0x1E, CHR 0x1F, CHR 0x20]"

fun split_from :: "string \<Rightarrow> string \<Rightarrow> string list" where
  "split_from w [] = (if w = [] then [] else [w])"
| "split_from w (c # cs) =
     (if is_space c then (if w = [] then split_from [] cs else w # split_from [] cs)
      else split_from (w @ [c]) cs)"

definition split :: "string \<Rightarrow> string list" where
  "split s = split_from [] s"

text \<open>\<^verbatim>\<open>s.replace(old, new)\<close> for a one-character \<^verbatim>\<open>old\<close>.\<close>

definition replace_char :: "char \<Rightarrow> string \<Rightarrow> string \<Rightarrow> string" where
  "replace_char old new s = concat (map (\<lambda>c. if c = old then new else [c]) s)"

text \<open>\<^verbatim>\<open>'{}'.format(n)\<close> for an integer.\<close>

definition digit_char :: "nat \<Rightarrow> char" where
  "digit_char d = char_of (of_char CHR ''0'' + d)"

fun str_nat :: "nat \<Rightarrow> string" where
  "str_nat n = (if n < 10 then [digit_char n] else str_nat (n div 10) @ [digit_char (n mod 10)])"

declare str_nat.simps [simp del]

definition str_int :: "int \<Rightarrow> string" where
  "str_int i = (if i < 0 then CHR ''-'' # str_nat (nat (- i)) else str_nat (nat i))"


section \<open>Errors\<close>

text \<open>
  Every exception of the source is a value. \<open>Exception\<close> and \<open>AttributeError\<close> are raised
  by \<^verbatim>\<open>db.py\<close> itself; \<open>RequestError\<close> stands for whatever \<^verbatim>\<open>requests.get\<close> or
  \<^verbatim>\<open>raise_for_status\<close> raises; the last three are the decode failures of the
  specification's error taxonomy.
\<close>

datatype error =
    Exception string
  | AttributeError string
  | RequestError string
  | TruncatedBuffer
  | MalformedField
  | SchemaMismatch


section \<open>The Shim connection\<close>

type_synonym byte = "8 word"

datatype Shim = cancel | execute_query | new_session | read_bytes | release_session

datatype Password_Placeholder = Password_Placeholder

datatype verify_opt = VerifyFlag bool | VerifyPath string

datatype param = PStr string | PInt int

record request =
  req_url :: string
  req_endpoint :: Shim
  req_params :: "(string \<times> param) list"
  req_auth :: "(string \<times> string) option"
  req_verify :: "verify_opt option"

record response =
  resp_text :: string
  resp_content :: "byte list"

text \<open>
  A request keeps the two arguments of \<^verbatim>\<open>urljoin\<close>, the URL of the connection and the
  endpoint, as they are. The HTTP bridge is outside the program: a function from the
  requests made so far and the present request to either an error (a transport failure,
  or a status that \<^verbatim>\<open>raise_for_status\<close> rejects) or a response. The list of requests
  made is the state that the model threads through every call.
\<close>

type_synonym transport = "request list \<Rightarrow> request \<Rightarrow> error + response"

record DB =
  scidb_url :: string
  scidb_auth :: "(string \<times> Password_Placeholder) option"
  http_auth :: "(string \<times> Password_Placeholder) option"
  role :: "string option"
  namespace :: "string option"
  verify :: "verify_opt option"
  priv_http_auth :: "(string \<times> string) option"
  priv_scidb_auth :: "(string \<times> string) option"
  operators :: "string list"

text \<open>\<^verbatim>\<open>DB._shim\<close>\<close>

definition shim ::
  "transport \<Rightarrow> DB \<Rightarrow> Shim \<Rightarrow> (string \<times> param) list \<Rightarrow> request list
     \<Rightarrow> (error + response) \<times> request list" where
  "shim tr self endpoint kwargs log =
     (let kwargs' =
            (case priv_scidb_auth self of
               Some (u, p) \<Rightarrow>
                 if endpoint \<in> {cancel, execute_query}
                 then AList.update ''password'' (PStr p) (AList.update ''user'' (PStr u) kwargs)
                 else kwargs
             | None \<Rightarrow> kwargs);
          req = \<lparr>req_url = scidb_url self, req_endpoint = endpoint, req_params = kwargs',
                 req_auth = priv_http_auth self, req_verify = verify self\<rparr>
      in (tr log req, log @ [req]))"

text \<open>\<^verbatim>\<open>DB.iquery_readlines\<close>\<close>

definition iquery_readlines ::
  "transport \<Rightarrow> DB \<Rightarrow> string \<Rightarrow> request list \<Rightarrow> (error + string list) \<times> request list" where
  "iquery_readlines tr self query log =
     (case shim tr self new_session [] log of
        (Inl e, log1) \<Rightarrow> (Inl e, log1)
      | (Inr r1, log1) \<Rightarrow>
     (case shim tr self execute_query
             [(''id'', PStr (resp_text r1)), (''query'', PStr query), (''save'', PStr ''tsv'')] log1 of
        (Inl e, log2) \<Rightarrow> (Inl e, log2)
      | (Inr r2, log2) \<Rightarrow>
     (case shim tr self read_bytes [(''id'', PStr (resp_text r1)), (''n'', PInt 0)] log2 of
        (Inl e, log3) \<Rightarrow> (Inl e, log3)
      | (Inr r3, log3) \<Rightarrow>
     (case shim tr self release_session [(''id'', PStr (resp_text r1))] log3 of
        (Inl e, log4) \<Rightarrow> (Inl e, log4)
      | (Inr r4, log4) \<Rightarrow> (Inr (split (resp_text r3)), log4)))))"

text \<open>
  \<^verbatim>\<open>DB.__init__\<close>. A tuple of credentials is truthy, \<^verbatim>\<open>None\<close> is not. The field
  \<^verbatim>\<open>arrays\<close> (an \<^verbatim>\<open>Arrays\<close> object that points back to the connection) makes no
  request and is left out.
\<close>

definition DB_init ::
  "transport \<Rightarrow> string \<Rightarrow> (string \<times> string) option \<Rightarrow> (string \<times> string) option
     \<Rightarrow> string option \<Rightarrow> string option \<Rightarrow> verify_opt option
     \<Rightarrow> request list \<Rightarrow> (error + DB) \<times> request list" where
  "DB_init tr url s_auth h_auth rl ns vf log =
     (let self1 = \<lparr>scidb_url = url, scidb_auth = None, http_auth = None, role = rl,
                    namespace = ns, verify = vf, priv_http_auth = None,
                    priv_scidb_auth = None, operators = []\<rparr>;
          self2 = (case h_auth of
                     Some (u, p) \<Rightarrow>
                       self1\<lparr>priv_http_auth := Some (u, p),
                              http_auth := Some (u, Password_Placeholder)\<rparr>
                   | None \<Rightarrow> self1\<lparr>priv_http_auth := None, http_auth := None\<rparr>)
      in case s_auth of
           Some (u, p) \<Rightarrow>
             if \<not> startswith (lower (scidb_url self2)) ''https''
             then (Inl (Exception
                     ''SciDB credentials can only be used with https connections''), log)
             else
               (let self3 = self2\<lparr>priv_scidb_auth := Some (u, p),
                                   scidb_auth := Some (u, Password_Placeholder)\<rparr>
                in case iquery_readlines tr self3 ''project(list('operators'), name)'' log of
                     (Inl e, log') \<Rightarrow> (Inl e, log')
                   | (Inr ops, log') \<Rightarrow>
                       (Inr (self3\<lparr>operators :=
                               sort (ops @ [''arrays'', ''iquery'', ''iquery_readlines''])\<rparr>),
                        log'))
         | None \<Rightarrow>
             (let self3 = self2\<lparr>priv_scidb_auth := None, scidb_auth := None\<rparr>
              in case iquery_readlines tr self3 ''project(list('operators'), name)'' log of
                   (Inl e, log') \<Rightarrow> (Inl e, log')
                 | (Inr ops, log') \<Rightarrow>
                     (Inr (self3\<lparr>operators :=
                             sort (ops @ [''arrays'', ''iquery'', ''iquery_readlines''])\<rparr>),
                      log')))"


section \<open>Decoding the downloaded content\<close>

text \<open>
  The part of \<^verbatim>\<open>DB.iquery\<close> after the download. The two methods of a field descriptor
  that it calls, \<^verbatim>\<open>att.itemsize(buf, off)\<close> and
  \<^verbatim>\<open>att.frombytes(buf, off, sz, promo=...)\<close>, are arguments of the loops, so that
  everything proved about the loops holds for whatever these methods compute. A byte width
  is a natural number; a method that raises returns \<open>Inl\<close>.
\<close>

type_synonym meta = "(nat \<times> nat) list"

text \<open>
  First pass, the inner loop:
  \<^verbatim>\<open>for att in sch.atts: sz = att.itemsize(buf, off); meta.append((off, sz)); off += sz\<close>
\<close>

fun scan_record ::
  "('a \<Rightarrow> byte list \<Rightarrow> nat \<Rightarrow> error + nat) \<Rightarrow> 'a list \<Rightarrow> byte list \<Rightarrow> nat \<Rightarrow> meta
     \<Rightarrow> error + (meta \<times> nat)" where
  "scan_record isz [] buf off meta = Inr (meta, off)"
| "scan_record isz (att # atts) buf off meta =
     (case isz att buf off of
        Inl e \<Rightarrow> Inl e
      | Inr sz \<Rightarrow> scan_record isz atts buf (off + sz) (meta @ [(off, sz)]))"

text \<open>
  First pass, the outer loop:
  \<^verbatim>\<open>while off < len(buf): meta = []; ...; buf_meta.append(meta)\<close>.
  Nothing in the source bounds the number of rounds (a round that measures no byte leaves
  \<^verbatim>\<open>off\<close> where it was), so the loop is a partial function: \<open>None\<close> is a scan that
  never returns.
\<close>

partial_function (option) scan_content ::
  "('a \<Rightarrow> byte list \<Rightarrow> nat \<Rightarrow> error + nat) \<Rightarrow> 'a list \<Rightarrow> byte list \<Rightarrow> nat \<Rightarrow> meta list
     \<Rightarrow> (error + meta list) option" where
  "scan_content isz atts buf off buf_meta =
     (if off < length buf then
        (case scan_record isz atts buf off [] of
           Inl e \<Rightarrow> Some (Inl e)
         | Inr (meta, off') \<Rightarrow> scan_content isz atts buf off' (buf_meta @ [meta]))
      else Some (Inr buf_meta))"

declare scan_content.simps [code]

text \<open>
  Second pass, one record:
  \<^verbatim>\<open>tuple(att.frombytes(buf, off, sz, promo=...) for (att, (off, sz)) in zip(sch.atts, meta))\<close>.
  The first field that raises ends the pass.
\<close>

fun extract_record ::
  "('a \<Rightarrow> byte list \<Rightarrow> nat \<Rightarrow> nat \<Rightarrow> bool \<Rightarrow> error + 'v) \<Rightarrow> byte list \<Rightarrow> bool
     \<Rightarrow> ('a \<times> nat \<times> nat) list \<Rightarrow> error + 'v list" where
  "extract_record frb buf promo [] = Inr []"
| "extract_record frb buf promo ((att, off, sz) # rest) =
     (case frb att buf off sz promo of
        Inl e \<Rightarrow> Inl e
      | Inr v \<Rightarrow>
          (case extract_record frb buf promo rest of
             Inl e \<Rightarrow> Inl e
           | Inr vs \<Rightarrow> Inr (v # vs)))"

text \<open>
  Second pass, all records: \<^verbatim>\<open>for meta in buf_meta: ar.put((pos,), ...); pos += 1\<close>.
  The array is the list of its rows, in the order of \<^verbatim>\<open>pos\<close>.
\<close>

fun populate ::
  "('a \<Rightarrow> byte list \<Rightarrow> nat \<Rightarrow> nat \<Rightarrow> bool \<Rightarrow> error + 'v) \<Rightarrow> 'a list \<Rightarrow> byte list \<Rightarrow> bool
     \<Rightarrow> meta list \<Rightarrow> error + 'v list list" where
  "populate frb atts buf promo [] = Inr []"
| "populate frb atts buf promo (meta # buf_meta) =
     (case extract_record frb buf promo (zip atts meta) of
        Inl e \<Rightarrow> Inl e
      | Inr row \<Rightarrow>
          (case populate frb atts buf promo buf_meta of
             Inl e \<Rightarrow> Inl e
           | Inr rows \<Rightarrow> Inr (row # rows)))"

text \<open>Both passes: \<open>None\<close> when the scan never returns.\<close>

definition decode ::
  "('a \<Rightarrow> byte list \<Rightarrow> nat \<Rightarrow> error + nat) \<Rightarrow> ('a \<Rightarrow> byte list \<Rightarrow> nat \<Rightarrow> nat \<Rightarrow> bool \<Rightarrow> error + 'v)
     \<Rightarrow> 'a list \<Rightarrow> byte list \<Rightarrow> bool \<Rightarrow> (error + 'v list list) option" where
  "decode isz frb atts buf promo =
     (case scan_content isz atts buf 0 [] of
        None \<Rightarrow> None
      | Some (Inl e) \<Rightarrow> Some (Inl e)
      | Some (Inr buf_meta) \<Rightarrow> Some (populate frb atts buf promo buf_meta))"


section \<open>Field descriptors\<close>

text \<open>
  Modelled from the spec: the classes \<^verbatim>\<open>Attribute\<close>, \<^verbatim>\<open>Dimension\<close> and \<^verbatim>\<open>Schema\<close>
  of \<^verbatim>\<open>schema.py\<close>, which is missing from the sources (specification section 3, field
  descriptor). The records below hold what \<^verbatim>\<open>db.py\<close> passes to their
  constructors (\<^verbatim>\<open>Attribute('x', 'int64', not_null=True)\<close>, \<^verbatim>\<open>Dimension('i', 0, 2)\<close>,
  \<^verbatim>\<open>Schema(None, atts, dims)\<close>) and reads from them (\<^verbatim>\<open>sch.atts\<close>, \<^verbatim>\<open>sch.dims\<close>,
  \<^verbatim>\<open>.name\<close>). The type tags are the two the specification gives a width for: \<open>int64\<close>,
  eight bytes, and \<open>string\<close>, of variable width.
\<close>

datatype type_tag = TInt64 | TString

record Attribute =
  name :: string
  type_name :: type_tag
  not_null :: bool

record Dimension =
  dim_name :: string
  low_value :: "int option"
  high_value :: "int option"

record Schema =
  sch_name :: "string option"
  atts :: "Attribute list"
  dims :: "Dimension list"

text \<open>
  Modelled from the spec: the values that \<^verbatim>\<open>Attribute.frombytes\<close> returns (sections 3
  and 4.2). \<open>FloatV i\<close> is the integer \<open>i\<close> held in a floating-point column (the
  rounding of integers beyond 53 bits is not modelled), \<open>NaN\<close> the floating-point
  sentinel, \<open>NoneVal\<close> the null of an object column, \<open>BytesV\<close> the undecoded bytes of a
  variable-width value, and \<open>PairV i v\<close> the raw pair of null-indicator byte and value.
\<close>

datatype val =
    IntV int
  | FloatV int
  | NaN
  | NoneVal
  | BytesV "byte list"
  | PairV byte val

text \<open>
  Modelled from the spec: the constant width of a fixed-width type (section 3), as
  \<^verbatim>\<open>Attribute.itemsize\<close> uses it.
\<close>

fun fixed_width :: "type_tag \<Rightarrow> nat option" where
  "fixed_width TInt64 = Some 8"
| "fixed_width TString = None"

text \<open>
  The rule by which a variable-width value is measured is the format's own and the
  specification leaves it open (a terminator, or an embedded length): it is a parameter,
  which returns the width of the value that starts at an offset of the buffer, or \<open>None\<close>
  when the rule finds no end.
\<close>

type_synonym scan_rule = "byte list \<Rightarrow> nat \<Rightarrow> nat option"

text \<open>
  Modelled from the spec: \<^verbatim>\<open>Attribute.itemsize\<close> (\<^verbatim>\<open>schema.py\<close>, missing from the
  sources). Section 4.1, step 2a: a fixed type has a constant width, a variable type is
  measured by scanning from the offset, and a scan that finds no end is a
  \<open>MalformedField\<close>. A nullable field has its null-indicator byte in front (section 3,
  and the \<^verbatim>\<open>[('null', 'u1'), ('val', '<i8')]\<close> of the doctests of \<^verbatim>\<open>db.py\<close>).
\<close>

definition itemsize :: "scan_rule \<Rightarrow> Attribute \<Rightarrow> byte list \<Rightarrow> nat \<Rightarrow> error + nat" where
  "itemsize rule att buf off =
     (let null_size = (if not_null att then 0 else 1)
      in case fixed_width (type_name att) of
           Some w \<Rightarrow> Inr (null_size + w)
         | None \<Rightarrow>
             (case rule buf (off + null_size) of
                None \<Rightarrow> Inl MalformedField
              | Some w \<Rightarrow> Inr (null_size + w)))"

text \<open>
  Modelled from the spec: the bytes of a value read per the type tag (section 4.1, step
  3), as \<^verbatim>\<open>Attribute.frombytes\<close> does. An \<open>int64\<close> is eight bytes, least significant
  first, in two's complement (the \<^verbatim>\<open>'<i8'\<close> of the doctests of \<^verbatim>\<open>db.py\<close>); a value
  of another length does not fit the type.
\<close>

fun le_nat :: "byte list \<Rightarrow> nat" where
  "le_nat [] = 0"
| "le_nat (b # bs) = unat b + 256 * le_nat bs"

definition int64_le :: "byte list \<Rightarrow> int" where
  "int64_le bs = (let u = int (le_nat bs) in if u < 2 ^ 63 then u else u - 2 ^ 64)"

fun interp :: "type_tag \<Rightarrow> byte list \<Rightarrow> error + val" where
  "interp TInt64 bs = (if length bs = 8 then Inr (IntV (int64_le bs)) else Inl SchemaMismatch)"
| "interp TString bs = Inr (BytesV bs)"

text \<open>
  Modelled from the spec: the promotion of a nullable value (sections 3 and 4.2), part of
  \<^verbatim>\<open>Attribute.frombytes\<close>. An integer is widened to floating point, whose sentinel is
  NaN; the sentinel of an object column is its null.
\<close>

fun widen :: "val \<Rightarrow> val" where
  "widen (IntV i) = FloatV i"
| "widen v = v"

fun sentinel :: "type_tag \<Rightarrow> val" where
  "sentinel TInt64 = NaN"
| "sentinel TString = NoneVal"

text \<open>
  Modelled from the spec: the test of the null-indicator byte in
  \<^verbatim>\<open>Attribute.frombytes\<close> (missing from the sources). The byte that marks a value as
  present is the one the doctests of \<^verbatim>\<open>db.py\<close> show: the cells of
  \<^verbatim>\<open>build(<x:int64>[i=0:2], i)\<close> download as \<^verbatim>\<open>(255, 0)\<close>, \<^verbatim>\<open>(255, 1)\<close>,
  \<^verbatim>\<open>(255, 2)\<close>, and the same query with promotion gives the column \<^verbatim>\<open>0.0\<close>,
  \<^verbatim>\<open>1.0\<close>, \<^verbatim>\<open>2.0\<close>. Section 3 of the specification, where any indicator other
  than 0 marks an absent value, contradicts these doctests; the source is followed.
\<close>

definition present :: "byte \<Rightarrow> bool" where
  "present ind \<longleftrightarrow> ind = 255"

text \<open>
  Modelled from the spec: \<^verbatim>\<open>Attribute.frombytes\<close> (\<^verbatim>\<open>schema.py\<close>, missing from the
  sources). Section 4.1, step 3: the value is read from the buffer at \<open>(offset, width)\<close>
  per the type tag, and the bytes of a nullable field are split into the null-indicator
  byte and the value bytes; a buffer that ends before \<open>offset + width\<close> is a
  \<open>TruncatedBuffer\<close> (section 4.1, error conditions). Sections 3 and 4.2: without
  promotion a nullable value is the raw pair; with promotion an absent value is the
  sentinel of its type and a present one is widened. Which indicator marks a present value
  is taken from the doctests of \<^verbatim>\<open>db.py\<close> (see \<open>present\<close>).
\<close>

definition frombytes :: "Attribute \<Rightarrow> byte list \<Rightarrow> nat \<Rightarrow> nat \<Rightarrow> bool \<Rightarrow> error + val" where
  "frombytes att buf off sz promo =
     (if length buf < off + sz then Inl TruncatedBuffer
      else
        (let bs = take sz (drop off buf)
         in if not_null att then interp (type_name att) bs
            else
              (case bs of
                 [] \<Rightarrow> Inl SchemaMismatch
               | ind # payload \<Rightarrow>
                   (case interp (type_name att) payload of
                      Inl e \<Rightarrow> Inl e
                    | Inr v \<Rightarrow>
                        if promo
                        then Inr (if present ind then widen v else sentinel (type_name att))
                        else Inr (PairV ind v)))))"


section \<open>The schema before the download\<close>

text \<open>
  Modelled from the spec: the column types of the result (section 4.2), which
  \<^verbatim>\<open>schema.py\<close> builds. \<open>CNullPair t\<close> is the record type
  \<^verbatim>\<open>[('null', 'u1'), ('val', t)]\<close> of a nullable field that is not promoted.
\<close>

datatype col_type = CInt64 | CFloat64 | CObject | CNullPair col_type

fun base_col :: "type_tag \<Rightarrow> col_type" where
  "base_col TInt64 = CInt64"
| "base_col TString = CObject"

text \<open>
  Modelled from the spec: \<^verbatim>\<open>Schema.atts_dtype\<close> (\<^verbatim>\<open>schema.py\<close>, missing from the
  sources). Section 4.2: without promotion each nullable value stays the raw pair; the
  doctests of \<^verbatim>\<open>db.py\<close> print this type as
  \<^verbatim>\<open>[('i', '<i8'), ('x', [('null', 'u1'), ('val', '<i8')])]\<close>.
\<close>

definition atts_dtype :: "Schema \<Rightarrow> (string \<times> col_type) list" where
  "atts_dtype sch =
     map (\<lambda>a. (name a, if not_null a then base_col (type_name a)
                          else CNullPair (base_col (type_name a)))) (atts sch)"

text \<open>
  Modelled from the spec: \<^verbatim>\<open>Schema.get_promo_atts_dtype\<close> (\<^verbatim>\<open>schema.py\<close>, missing
  from the sources). Section 4.2: the column of a nullable integer is widened to floating
  point; an object column holds its own null.
\<close>

fun promo_col :: "type_tag \<Rightarrow> col_type" where
  "promo_col TInt64 = CFloat64"
| "promo_col TString = CObject"

definition get_promo_atts_dtype :: "Schema \<Rightarrow> (string \<times> col_type) list" where
  "get_promo_atts_dtype sch =
     map (\<lambda>a. (name a, if not_null a then base_col (type_name a)
                          else promo_col (type_name a))) (atts sch)"

text \<open>
  Modelled from the spec: \<^verbatim>\<open>Schema.make_dims_unique\<close> (\<^verbatim>\<open>schema.py\<close>, missing from
  the sources). Section 4.2: a dimension name that collides with an attribute name is
  resolved before decoding, so that the names are unique. The doctest of \<^verbatim>\<open>db.py\<close>
  renames the dimension \<^verbatim>\<open>i\<close> to \<^verbatim>\<open>i_1\<close>: the new name is the old one with
  \<^verbatim>\<open>_1\<close>, \<^verbatim>\<open>_2\<close>, ... appended, the first that no attribute and no other dimension
  has (one of the first \<open>n + 1\<close> candidates is free of \<open>n\<close> names). The result says
  whether a dimension was renamed, as the source's test of it needs.
\<close>

definition numbered :: "string \<Rightarrow> nat \<Rightarrow> string" where
  "numbered base k = base @ ''_'' @ str_nat k"

definition fresh_name :: "string list \<Rightarrow> string \<Rightarrow> string" where
  "fresh_name used base =
     (case find (\<lambda>c. c \<notin> set used) (map (numbered base) [1..<length used + 2]) of
        Some c \<Rightarrow> c
      | None \<Rightarrow> base)"

fun rename_dims ::
  "string list \<Rightarrow> Dimension list \<Rightarrow> Dimension list \<Rightarrow> bool \<times> Dimension list" where
  "rename_dims att_names seen [] = (False, seen)"
| "rename_dims att_names seen (d # ds) =
     (if dim_name d \<in> set att_names
      then
        (let used = att_names @ map dim_name seen @ map dim_name ds;
             d' = d\<lparr>dim_name := fresh_name used (dim_name d)\<rparr>
         in (True, snd (rename_dims att_names (seen @ [d']) ds)))
      else rename_dims att_names (seen @ [d]) ds)"

definition make_dims_unique :: "Schema \<Rightarrow> bool \<times> Schema" where
  "make_dims_unique sch =
     (let (renamed, ds) = rename_dims (map name (atts sch)) [] (dims sch)
      in (renamed, sch\<lparr>dims := ds\<rparr>))"

text \<open>
  Modelled from the spec: \<^verbatim>\<open>Schema.make_dims_atts\<close> (\<^verbatim>\<open>schema.py\<close>, missing from
  the sources). Section 3: the dimension fields and the attribute fields are concatenated,
  dimensions first. A dimension is downloaded as an \<open>int64\<close> that is never null (the
  \<^verbatim>\<open>('i', '<i8')\<close> of the doctests).
\<close>

definition dim_att :: "Dimension \<Rightarrow> Attribute" where
  "dim_att d = \<lparr>name = dim_name d, type_name = TInt64, not_null = True\<rparr>"

definition make_dims_atts :: "Schema \<Rightarrow> Schema" where
  "make_dims_atts sch = sch\<lparr>atts := map dim_att (dims sch) @ atts sch\<rparr>"

text \<open>
  What else \<^verbatim>\<open>db.py\<close> takes from \<^verbatim>\<open>schema.py\<close> has no effect on the decoding and
  stays a parameter: the parser \<^verbatim>\<open>Schema.fromstring\<close>, the format \<^verbatim>\<open>'{:h}'\<close> of a
  schema, the property \<^verbatim>\<open>atts_fmt\<close> that names the download format, and the rule that
  measures a variable-width value.
\<close>

record schema_mod =
  fromstring :: "string \<Rightarrow> error + Schema"
  format_h :: "Schema \<Rightarrow> string"
  atts_fmt :: "Schema \<Rightarrow> string"
  var_rule :: scan_rule


section \<open>DB.iquery\<close>

datatype schema_arg = SchemaObj Schema | SchemaStr string

record iquery_opts =
  fetch :: bool
  atts_only :: bool
  as_dataframe :: bool
  dataframe_promo :: bool
  schema :: "schema_arg option"

text \<open>
  The defaults of the signature:
  \<^verbatim>\<open>fetch=False, atts_only=False, as_dataframe=False, dataframe_promo=True, schema=None\<close>.
  A call that passes some of the keywords updates this record.
\<close>

definition iquery_defaults :: iquery_opts where
  "iquery_defaults =
     \<lparr>fetch = False, atts_only = False, as_dataframe = False, dataframe_promo = True,
      schema = None\<rparr>"

datatype result =
    NoResult
  | Ndarray "(string \<times> col_type) list" "val list list"
  | DataFrame "(string \<times> col_type) list" "val list list"

text \<open>\<^verbatim>\<open>DB._show_query.format(query.replace("'", "\\'"))\<close>\<close>

definition show_query :: "string \<Rightarrow> string" where
  "show_query query =
     ''show('' @ [CHR 0x27] @ replace_char (CHR 0x27) [CHR 0x5C, CHR 0x27] query @ [CHR 0x27]
       @ '', '' @ [CHR 0x27] @ ''afl'' @ [CHR 0x27] @ '')''"

text \<open>
  ``Use provided schema or get schema from SciDB'': a schema object is truthy and copied,
  a non-empty string is parsed, and for \<^verbatim>\<open>None\<close> or an empty string the schema is
  downloaded with \<^verbatim>\<open>show(...)\<close>.
\<close>

definition resolve_schema ::
  "transport \<Rightarrow> schema_mod \<Rightarrow> DB \<Rightarrow> string \<Rightarrow> string \<Rightarrow> schema_arg option \<Rightarrow> request list
     \<Rightarrow> (error + Schema) \<times> request list" where
  "resolve_schema tr m self ident query sa log =
     (let download =
            (case shim tr self execute_query
                    [(''id'', PStr ident), (''query'', PStr (show_query query)),
                     (''save'', PStr ''tsv'')] log of
               (Inl e, log1) \<Rightarrow> (Inl e, log1)
             | (Inr r1, log1) \<Rightarrow>
            (case shim tr self read_bytes [(''id'', PStr ident), (''n'', PInt 0)] log1 of
               (Inl e, log2) \<Rightarrow> (Inl e, log2)
             | (Inr r2, log2) \<Rightarrow> (fromstring m (resp_text r2), log2)))
      in case sa of
           Some (SchemaObj sch) \<Rightarrow> (Inr sch, log)
         | Some (SchemaStr s) \<Rightarrow> if s \<noteq> [] then (fromstring m s, log) else download
         | None \<Rightarrow> download)"

text \<open>
  ``Unpack'', the branch \<^verbatim>\<open>if not atts_only\<close>: the dimensions are made unique, the query
  is wrapped so that it returns the dimensions as attributes in front of the attributes,
  and the schema follows.
\<close>

definition unpack :: "schema_mod \<Rightarrow> string \<Rightarrow> Schema \<Rightarrow> string \<times> Schema" where
  "unpack m query sch =
     (let (renamed, sch1) = make_dims_unique sch;
          query1 = (if renamed then ''cast('' @ query @ '', '' @ format_h m sch1 @ '')''
                    else query);
          query2 = ''project(apply('' @ query1 @ '', ''
                     @ join '', '' (map (\<lambda>d. dim_name d @ '', '' @ dim_name d) (dims sch1))
                     @ ''), ''
                     @ join '', '' (map dim_name (dims sch1) @ map name (atts sch1))
                     @ '')''
      in (query2, make_dims_atts sch1))"

text \<open>``Create NumPy record array'' and ``Return NumPy array or Pandas dataframe''.\<close>

definition materialize :: "Schema \<Rightarrow> bool \<Rightarrow> bool \<Rightarrow> val list list \<Rightarrow> result" where
  "materialize sch as_df df_promo rows =
     (let dtype = (if as_df \<and> df_promo then get_promo_atts_dtype sch else atts_dtype sch)
      in if as_df then DataFrame dtype rows else Ndarray dtype rows)"

text \<open>
  \<^verbatim>\<open>DB.iquery\<close>. The outer \<open>option\<close> is \<open>None\<close> when the scan of the content never
  returns; an exception is \<open>Inl\<close>, with the requests made until then.
\<close>

definition iquery ::
  "transport \<Rightarrow> schema_mod \<Rightarrow> DB \<Rightarrow> string \<Rightarrow> iquery_opts \<Rightarrow> request list
     \<Rightarrow> ((error + result) \<times> request list) option" where
  "iquery tr m self query opts log =
     (case shim tr self new_session [] log of
        (Inl e, log1) \<Rightarrow> Some (Inl e, log1)
      | (Inr r0, log1) \<Rightarrow>
          if fetch opts then
            (case resolve_schema tr m self (resp_text r0) query (schema opts) log1 of
               (Inl e, log2) \<Rightarrow> Some (Inl e, log2)
             | (Inr sch0, log2) \<Rightarrow>
                 (let (query', sch) =
                        (if \<not> atts_only opts then unpack m query sch0 else (query, sch0))
                  in case shim tr self execute_query
                            [(''id'', PStr (resp_text r0)), (''query'', PStr query'),
                             (''save'', PStr (atts_fmt m sch))] log2 of
                       (Inl e, log3) \<Rightarrow> Some (Inl e, log3)
                     | (Inr r3, log3) \<Rightarrow>
                    (case shim tr self read_bytes
                            [(''id'', PStr (resp_text r0)), (''n'', PInt 0)] log3 of
                       (Inl e, log4) \<Rightarrow> Some (Inl e, log4)
                     | (Inr r4, log4) \<Rightarrow>
                    (case shim tr self release_session [(''id'', PStr (resp_text r0))] log4 of
                       (Inl e, log5) \<Rightarrow> Some (Inl e, log5)
                     | (Inr r5, log5) \<Rightarrow>
                    (case decode (itemsize (var_rule m)) frombytes (atts sch) (resp_content r4)
                            (as_dataframe opts \<and> dataframe_promo opts) of
                       None \<Rightarrow> None
                     | Some (Inl e) \<Rightarrow> Some (Inl e, log5)
                     | Some (Inr rows) \<Rightarrow>
                         Some (Inr (materialize sch (as_dataframe opts) (dataframe_promo opts)
                                      rows), log5))))))
          else
            (case shim tr self execute_query
                    [(''id'', PStr (resp_text r0)), (''query'', PStr query),
                     (''release'', PInt 1)] log1 of
               (Inl e, log2) \<Rightarrow> Some (Inl e, log2)
             | (Inr r2, log2) \<Rightarrow> Some (Inr NoResult, log2)))"


section \<open>Operators\<close>

text \<open>
  The arguments of an operator are Python values that \<^verbatim>\<open>'{}'.format\<close> prints: strings,
  integers, and the \<^verbatim>\<open>False\<close> that \<^verbatim>\<open>__call__\<close> appends.
\<close>

datatype arg = AStr string | AInt int | ABool bool

fun format_arg :: "arg \<Rightarrow> string" where
  "format_arg (AStr s) = s"
| "format_arg (AInt i) = str_int i"
| "format_arg (ABool b) = (if b then ''True'' else ''False'')"

record SciDB =
  db :: DB
  operator :: string
  args :: "arg list"
  is_lazy :: bool

text \<open>\<^verbatim>\<open>SciDB.__init__\<close>\<close>

definition SciDB_init :: "DB \<Rightarrow> string \<Rightarrow> arg list \<Rightarrow> SciDB" where
  "SciDB_init d opr as =
     \<lparr>db = d, operator = opr, args = as,
      is_lazy = (lower opr \<notin> {''create_array'', ''remove''})\<rparr>"

text \<open>\<^verbatim>\<open>SciDB.__str__\<close>\<close>

definition SciDB_str :: "SciDB \<Rightarrow> string" where
  "SciDB_str self = operator self @ ''('' @ join '', '' (map format_arg (args self)) @ '')''"

text \<open>
  \<^verbatim>\<open>SciDB.__call__\<close>. The call assigns \<^verbatim>\<open>self.args\<close>, so the object after the call is
  part of the result, next to what the call returns (\<open>Inl\<close> the expression itself, \<open>Inr\<close>
  what \<^verbatim>\<open>iquery\<close> returned) and the requests made.
\<close>

definition SciDB_call ::
  "transport \<Rightarrow> schema_mod \<Rightarrow> SciDB \<Rightarrow> arg list \<Rightarrow> request list
     \<Rightarrow> ((error + (SciDB + result)) \<times> SciDB \<times> request list) option" where
  "SciDB_call tr m self as log =
     (let self1 = self\<lparr>args := as\<rparr>;
          self2 = (if startswith (lower (operator self1)) ''create_array''
                      \<and> length (args self1) < 3
                   then self1\<lparr>args := args self1 @ [ABool False]\<rparr> else self1)
      in if is_lazy self2 then Some (Inr (Inl self2), self2, log)
         else
           (case iquery tr m (db self2) (SciDB_str self2) iquery_defaults log of
              None \<Rightarrow> None
            | Some (Inl e, log') \<Rightarrow> Some (Inl e, self2, log')
            | Some (Inr r, log') \<Rightarrow> Some (Inr (Inr r), self2, log')))"

text \<open>
  \<^verbatim>\<open>DB.__getattr__\<close>: the name of an operator gives an expression with no arguments, any
  other name an \<^verbatim>\<open>AttributeError\<close> (which here carries the name alone).
\<close>

definition DB_getattr :: "DB \<Rightarrow> string \<Rightarrow> error + SciDB" where
  "DB_getattr self nm =
     (if nm \<in> set (operators self) then Inr (SciDB_init self nm [])
      else Inl (AttributeError nm))"


section \<open>What the first pass records\<close>

text \<open>
  \<open>contiguous off ps e\<close>: the pairs \<open>ps\<close> lie end to end from \<open>off\<close> to \<open>e\<close>; the first
  starts at \<open>off\<close>, each next one where the one before it ends, and the last ends at \<open>e\<close>.
\<close>

fun contiguous :: "nat \<Rightarrow> meta \<Rightarrow> nat \<Rightarrow> bool" where
  "contiguous off [] e \<longleftrightarrow> e = off"
| "contiguous off (p # ps) e \<longleftrightarrow> fst p = off \<and> contiguous (off + snd p) ps e"

text \<open>
  \<open>rounds n off buf_meta e\<close>: the records \<open>buf_meta\<close> are the rounds of a scan of \<open>n\<close>
  bytes that is at \<open>off\<close>; each round begins below \<open>n\<close> and lays its pairs end to end
  from where the round before it stopped, and the scan stops at \<open>e\<close>, the first such
  offset that is not below \<open>n\<close>.
\<close>

fun rounds :: "nat \<Rightarrow> nat \<Rightarrow> meta list \<Rightarrow> nat \<Rightarrow> bool" where
  "rounds n off [] e \<longleftrightarrow> e = off \<and> n \<le> off"
| "rounds n off (m # ms) e \<longleftrightarrow>
     off < n \<and> contiguous off m (off + sum_list (map snd m)) \<and>
     rounds n (off + sum_list (map snd m)) ms e"

text \<open>The width of a field of fixed width, its null-indicator byte included.\<close>

definition const_width :: "Attribute \<Rightarrow> nat option" where
  "const_width att =
     map_option (\<lambda>w. (if not_null att then 0 else 1) + w) (fixed_width (type_name att))"


section \<open>Sample inputs\<close>

text \<open>A bridge that answers every request with the same two operator names.\<close>

definition ok_transport :: transport where
  "ok_transport log req = Inr \<lparr>resp_text = ''apply  build'', resp_content = []\<rparr>"

text \<open>The connection \<^verbatim>\<open>DB()\<close> of the documentation, with two operators listed.\<close>

definition db0 :: DB where
  "db0 = \<lparr>scidb_url = ''http://localhost:8080'', scidb_auth = None, http_auth = None,
           role = None, namespace = None, verify = None, priv_http_auth = None,
           priv_scidb_auth = None,
           operators = [''apply'', ''arrays'', ''build'', ''iquery'', ''iquery_readlines'']\<rparr>"

text \<open>A scan rule that finds no end, for schemas without variable-width fields.\<close>

definition no_rule :: scan_rule where
  "no_rule buf off = None"

text \<open>A stand-in for \<^verbatim>\<open>schema.py\<close> that parses nothing and formats nothing.\<close>

definition mod0 :: schema_mod where
  "mod0 = \<lparr>fromstring = (\<lambda>s. Inl (Exception ''unparsed'')), format_h = (\<lambda>sch. []),
            atts_fmt = (\<lambda>sch. []), var_rule = no_rule\<rparr>"

text \<open>
  The fields of the documentation's array \<^verbatim>\<open>foo<x:int64>[i=0:2]\<close>: the dimension \<^verbatim>\<open>i\<close>
  as it is downloaded, and the nullable attribute \<^verbatim>\<open>x\<close>.
\<close>

definition field_i :: Attribute where
  "field_i = \<lparr>name = ''i'', type_name = TInt64, not_null = True\<rparr>"

definition field_x :: Attribute where
  "field_x = \<lparr>name = ''x'', type_name = TInt64, not_null = False\<rparr>"

text \<open>The eight bytes of a small \<open>int64\<close>.\<close>

definition small_int64 :: "nat \<Rightarrow> byte list" where
  "small_int64 k = of_nat k # replicate 7 0"

text \<open>
  The content of \<^verbatim>\<open>scan(foo)\<close> after \<^verbatim>\<open>store(build(<x:int64>[i=0:2], i), foo)\<close>, which
  the documentation shows decoded as \<^verbatim>\<open>[(0, (255, 0)), (1, (255, 1)), (2, (255, 2))]\<close>,
  and the same with \<^verbatim>\<open>atts_only=True\<close>.
\<close>

definition buf_foo :: "byte list" where
  "buf_foo = small_int64 0 @ [255] @ small_int64 0
           @ small_int64 1 @ [255] @ small_int64 1
           @ small_int64 2 @ [255] @ small_int64 2"

definition buf_foo_atts :: "byte list" where
  "buf_foo_atts = [255] @ small_int64 0 @ [255] @ small_int64 1 @ [255] @ small_int64 2"

text \<open>One record of the dimension alone, and the first four bytes of the next.\<close>

definition buf_cut :: "byte list" where
  "buf_cut = small_int64 0 @ take 4 (small_int64 1)"

text \<open>The last record of \<^verbatim>\<open>buf_foo\<close> with its final byte missing.\<close>

definition buf_foo_short :: "byte list" where
  "buf_foo_short = butlast buf_foo"

text \<open>One nullable cell whose indicator is 1, not 255.\<close>

definition buf_null :: "byte list" where
  "buf_null = [1] @ small_int64 7"

text \<open>
  The schema of \<^verbatim>\<open>foo\<close>, and that of the documentation's
  \<^verbatim>\<open>apply(build(<x:int64 not null>[i=0:2], i), i, i)\<close>, where an attribute has the name
  of the dimension.
\<close>

definition dim_i :: Dimension where
  "dim_i = \<lparr>dim_name = ''i'', low_value = Some 0, high_value = Some 2\<rparr>"

definition sch_foo :: Schema where
  "sch_foo = \<lparr>sch_name = Some ''foo'', atts = [field_x], dims = [dim_i]\<rparr>"


text \<open>
  A bridge that answers every request with the session name \<^verbatim>\<open>1\<close> and a fixed
  content.
\<close>

definition content_transport :: "byte list \<Rightarrow> transport" where
  "content_transport buf log req = Inr \<lparr>resp_text = ''1'', resp_content = buf\<rparr>"

text \<open>
  The keywords of three fetches of the documentation, each with the schema of \<^verbatim>\<open>foo\<close>
  provided: \<^verbatim>\<open>fetch=True\<close>; with \<^verbatim>\<open>atts_only=True\<close>; and with
  \<^verbatim>\<open>as_dataframe=True, dataframe_promo=False\<close> on top.
\<close>

definition opts_fetch :: iquery_opts where
  "opts_fetch = iquery_defaults\<lparr>fetch := True, schema := Some (SchemaObj sch_foo)\<rparr>"

definition opts_atts :: iquery_opts where
  "opts_atts = opts_fetch\<lparr>atts_only := True\<rparr>"

definition opts_raw_frame :: iquery_opts where
  "opts_raw_frame = opts_atts\<lparr>as_dataframe := True, dataframe_promo := False\<rparr>"

section \<open>Credentials need https\<close>

text \<open>
  Claim C10. A connection constructed with SciDB credentials and a URL whose lower-case
  form does not start with \<^verbatim>\<open>https\<close> raises the exception of \<^verbatim>\<open>DB.__init__\<close>, before
  any request is made, and no connection object results. With an https URL, a
  construction that returns has stored the credentials for the requests and shows the user
  name with the password placeholder in the public field.
\<close>

theorem scidb_auth_requires_https:
  "(\<not> startswith (lower url) ''https'' \<longrightarrow>
      DB_init tr url (Some (u, p)) h_auth rl ns vf log =
        (Inl (Exception ''SciDB credentials can only be used with https connections''), log)) \<and>
   (startswith (lower url) ''https'' \<longrightarrow>
      (\<forall>d log'. DB_init tr url (Some (u, p)) h_auth rl ns vf log = (Inr d, log') \<longrightarrow>
         scidb_auth d = Some (u, Password_Placeholder) \<and> priv_scidb_auth d = Some (u, p) \<and>
         scidb_url d = url))"
  by (cases h_auth) (auto simp: DB_init_def Let_def split: prod.splits sum.splits)

text \<open>
  Both cases at the URLs of the module's documentation: \<^verbatim>\<open>http://localhost:8080\<close> is
  refused, and over https (in capitals, to show that the test ignores case) the
  construction returns a connection.
\<close>

theorem scidb_auth_requires_https_witness:
  "\<not> startswith (lower ''http://localhost:8080'') ''https'' \<and>
   DB_init ok_transport ''http://localhost:8080'' (Some (''foo'', ''bar'')) None None None None [] =
     (Inl (Exception ''SciDB credentials can only be used with https connections''), []) \<and>
   startswith (lower ''HTTPS://localhost:8083'') ''https'' \<and>
   (\<exists>d log'. DB_init ok_transport ''HTTPS://localhost:8083'' (Some (''foo'', ''bar'')) None None None
       (Some (VerifyFlag False)) [] = (Inr d, log') \<and>
      scidb_auth d = Some (''foo'', Password_Placeholder) \<and>
      priv_scidb_auth d = Some (''foo'', ''bar'') \<and>
      operators d = [''apply'', ''arrays'', ''build'', ''iquery'', ''iquery_readlines''])"
proof -
  let ?r = "DB_init ok_transport ''HTTPS://localhost:8083'' (Some (''foo'', ''bar'')) None None None
       (Some (VerifyFlag False)) []"
  have a: "\<not> startswith (lower ''http://localhost:8080'') ''https''"
    by code_simp
  have b: "startswith (lower ''HTTPS://localhost:8083'') ''https''"
    by code_simp
  have c: "case fst ?r of
             Inl e \<Rightarrow> False
           | Inr d \<Rightarrow> operators d = [''apply'', ''arrays'', ''build'', ''iquery'', ''iquery_readlines'']"
    by code_simp
  then obtain d where d: "fst ?r = Inr d"
    and ops: "operators d = [''apply'', ''arrays'', ''build'', ''iquery'', ''iquery_readlines'']"
    by (cases "fst ?r") auto
  from d have d': "?r = (Inr d, snd ?r)" by (cases ?r) simp
  from scidb_auth_requires_https [of "''http://localhost:8080''" ok_transport "''foo''" "''bar''"
      None None None None "[]"] a
  have 1: "DB_init ok_transport ''http://localhost:8080'' (Some (''foo'', ''bar'')) None None None None [] =
     (Inl (Exception ''SciDB credentials can only be used with https connections''), [])" by blast
  from scidb_auth_requires_https [of "''HTTPS://localhost:8083''" ok_transport "''foo''" "''bar''"
      None None None "Some (VerifyFlag False)" "[]"] b d'
  have 2: "scidb_auth d = Some (''foo'', Password_Placeholder) \<and> priv_scidb_auth d = Some (''foo'', ''bar'')"
    by blast
  from a b 1 2 d' ops show ?thesis by blast
qed

section \<open>Expressions are built, immediate operators run\<close>

text \<open>
  A query that is not fetched makes two requests at most: the session, and then the
  query itself, released on completion.
\<close>

lemma iquery_nofetch:
  assumes "\<not> fetch opts"
  shows "\<exists>res reqs. iquery tr m d q opts log = Some (res, log @ reqs) \<and> reqs \<noteq> [] \<and>
           req_endpoint (hd reqs) = new_session \<and>
           (\<forall>r0. tr log (hd reqs) = Inr r0 \<longrightarrow>
              length reqs = 2 \<and> req_endpoint (reqs ! 1) = execute_query \<and>
              map_of (req_params (reqs ! 1)) ''query'' = Some (PStr q))"
proof -
  let ?req0 = "\<lparr>req_url = scidb_url d, req_endpoint = new_session, req_params = [],
                 req_auth = priv_http_auth d, req_verify = verify d\<rparr>"
  have s0: "shim tr d new_session [] log = (tr log ?req0, log @ [?req0])"
    by (cases "priv_scidb_auth d") (auto simp: shim_def Let_def)
  show ?thesis
  proof (cases "tr log ?req0")
    case (Inl e)
    with s0 assms have "iquery tr m d q opts log = Some (Inl e, log @ [?req0])"
      by (simp add: iquery_def)
    with Inl show ?thesis by (intro exI [of _ "Inl e"] exI [of _ "[?req0]"]) simp
  next
    case (Inr r0)
    let ?kw = "[(''id'', PStr (resp_text r0)), (''query'', PStr q), (''release'', PInt 1)]"
    obtain req1 where s1: "shim tr d execute_query ?kw (log @ [?req0]) = (tr (log @ [?req0]) req1, log @ [?req0] @ [req1])"
      and e1: "req_endpoint req1 = execute_query"
      and q1: "map_of (req_params req1) ''query'' = Some (PStr q)"
      by (cases "priv_scidb_auth d") (auto simp: shim_def Let_def update_conv')
    show ?thesis
    proof (cases "tr (log @ [?req0]) req1")
      case e: (Inl e)
      with s0 s1 Inr assms have "iquery tr m d q opts log = Some (Inl e, log @ [?req0, req1])"
        by (simp add: iquery_def)
      with e1 q1 show ?thesis by (intro exI [of _ "Inl e"] exI [of _ "[?req0, req1]"]) simp
    next
      case r: (Inr r1)
      with s0 s1 Inr assms have "iquery tr m d q opts log = Some (Inr NoResult, log @ [?req0, req1])"
        by (simp add: iquery_def)
      with e1 q1 show ?thesis by (intro exI [of _ "Inr NoResult"] exI [of _ "[?req0, req1]"]) simp
    qed
  qed
qed

text \<open>
  Claim C9. An expression holds an operator name and an argument list, and making one
  (\<^verbatim>\<open>SciDB_init\<close>, a function of its arguments alone) runs nothing. Calling the
  expression of a lazy operator stores the arguments and returns the expression, with no
  request made. Calling one whose operator is \<^verbatim>\<open>create_array\<close> or \<^verbatim>\<open>remove\<close> in any
  mix of cases runs it: the call asks for a session and, once it has one, sends the
  text of the expression as the query.
\<close>

theorem lazy_call_builds_immediate_call_executes:
  "let self = SciDB_init d opr as0;
       as' = (if startswith (lower opr) ''create_array'' \<and> length as < 3
              then as @ [ABool False] else as);
       self' = self\<lparr>args := as'\<rparr>
   in operator self = opr \<and> args self = as0 \<and>
      (lower opr \<notin> {''create_array'', ''remove''} \<longrightarrow>
         SciDB_call tr m self as log = Some (Inr (Inl self'), self', log)) \<and>
      (lower opr \<in> {''create_array'', ''remove''} \<longrightarrow>
         (\<exists>res reqs. SciDB_call tr m self as log = Some (res, self', log @ reqs) \<and>
            (\<forall>s. res \<noteq> Inr (Inl s)) \<and> reqs \<noteq> [] \<and>
            req_endpoint (hd reqs) = new_session \<and>
            (\<forall>r0. tr log (hd reqs) = Inr r0 \<longrightarrow>
               length reqs = 2 \<and> req_endpoint (reqs ! 1) = execute_query \<and>
               map_of (req_params (reqs ! 1)) ''query'' = Some (PStr (SciDB_str self')))))"
proof -
  define self where "self = SciDB_init d opr as0"
  define as' where "as' = (if startswith (lower opr) ''create_array'' \<and> length as < 3
              then as @ [ABool False] else as)"
  define self' where "self' = self\<lparr>args := as'\<rparr>"
  have flds: "operator self = opr" "args self = as0" "db self' = d"
    "is_lazy self' = (lower opr \<notin> {''create_array'', ''remove''})"
    by (simp_all add: self_def self'_def SciDB_init_def)
  have upd: "(if startswith (lower (operator (self\<lparr>args := as\<rparr>))) ''create_array''
                   \<and> length (args (self\<lparr>args := as\<rparr>)) < 3
               then (self\<lparr>args := as\<rparr>)\<lparr>args := args (self\<lparr>args := as\<rparr>) @ [ABool False]\<rparr>
               else self\<lparr>args := as\<rparr>) = self'"
    by (simp add: self'_def as'_def self_def SciDB_init_def)
  have call: "SciDB_call tr m self as log =
      (if is_lazy self' then Some (Inr (Inl self'), self', log)
       else (case iquery tr m (db self') (SciDB_str self') iquery_defaults log of
              None \<Rightarrow> None
            | Some (Inl e, log') \<Rightarrow> Some (Inl e, self', log')
            | Some (Inr r, log') \<Rightarrow> Some (Inr (Inr r), self', log')))"
    unfolding SciDB_call_def Let_def upd by (rule refl)
  have lazy: "SciDB_call tr m self as log = Some (Inr (Inl self'), self', log)"
    if "lower opr \<notin> {''create_array'', ''remove''}"
    using that call flds by simp
  have imm: "\<exists>res reqs. SciDB_call tr m self as log = Some (res, self', log @ reqs) \<and>
            (\<forall>s. res \<noteq> Inr (Inl s)) \<and> reqs \<noteq> [] \<and>
            req_endpoint (hd reqs) = new_session \<and>
            (\<forall>r0. tr log (hd reqs) = Inr r0 \<longrightarrow>
               length reqs = 2 \<and> req_endpoint (reqs ! 1) = execute_query \<and>
               map_of (req_params (reqs ! 1)) ''query'' = Some (PStr (SciDB_str self')))"
    if "lower opr \<in> {''create_array'', ''remove''}"
  proof -
    have nf: "\<not> fetch iquery_defaults" by (simp add: iquery_defaults_def)
    from iquery_nofetch [OF nf, of tr m d "SciDB_str self'" log]
    obtain res reqs where iq: "iquery tr m d (SciDB_str self') iquery_defaults log = Some (res, log @ reqs)"
      and rest: "reqs \<noteq> []" "req_endpoint (hd reqs) = new_session"
        "\<forall>r0. tr log (hd reqs) = Inr r0 \<longrightarrow>
              length reqs = 2 \<and> req_endpoint (reqs ! 1) = execute_query \<and>
              map_of (req_params (reqs ! 1)) ''query'' = Some (PStr (SciDB_str self'))"
      by blast
    from that flds have nl: "\<not> is_lazy self'" by simp
    show ?thesis
    proof (cases res)
      case (Inl e)
      with call nl iq flds have "SciDB_call tr m self as log = Some (Inl e, self', log @ reqs)" by simp
      with rest show ?thesis by (intro exI [of _ "Inl e"] exI [of _ reqs]) simp
    next
      case (Inr r)
      with call nl iq flds have "SciDB_call tr m self as log = Some (Inr (Inr r), self', log @ reqs)" by simp
      with rest show ?thesis by (intro exI [of _ "Inr (Inr r)"] exI [of _ reqs]) simp
    qed
  qed
  from flds lazy imm show ?thesis
    unfolding Let_def self_def [symmetric] as'_def [symmetric] self'_def [symmetric] by blast
qed

text \<open>
  The two calls of the documentation: \<^verbatim>\<open>db.build('<x:int8>[i=0:2]', 'random()')\<close>
  returns the expression, \<^verbatim>\<open>db.remove('foo')\<close> sends \<^verbatim>\<open>remove(foo)\<close>.
\<close>

theorem lazy_call_builds_immediate_call_executes_witness:
  "lower ''build'' \<notin> {''create_array'', ''remove''} \<and>
   SciDB_call ok_transport mod0 (SciDB_init db0 ''build'' [])
       [AStr ''<x:int8>[i=0:2]'', AStr ''random()''] [] =
     Some (Inr (Inl \<lparr>db = db0, operator = ''build'',
                      args = [AStr ''<x:int8>[i=0:2]'', AStr ''random()''], is_lazy = True\<rparr>),
           \<lparr>db = db0, operator = ''build'',
             args = [AStr ''<x:int8>[i=0:2]'', AStr ''random()''], is_lazy = True\<rparr>, []) \<and>
   lower ''remove'' \<in> {''create_array'', ''remove''} \<and>
   (\<exists>res reqs. SciDB_call ok_transport mod0 (SciDB_init db0 ''remove'' []) [AStr ''foo''] [] =
        Some (res, \<lparr>db = db0, operator = ''remove'', args = [AStr ''foo''], is_lazy = False\<rparr>, reqs) \<and>
      length reqs = 2 \<and> req_endpoint (reqs ! 1) = execute_query \<and>
      map_of (req_params (reqs ! 1)) ''query'' = Some (PStr ''remove(foo)''))"
proof -
  have l: "lower ''build'' \<notin> {''create_array'', ''remove''}" by code_simp
  have i: "lower ''remove'' \<in> {''create_array'', ''remove''}" by code_simp
  have sb: "\<not> startswith (lower ''build'') ''create_array''" by code_simp
  have sr: "\<not> startswith (lower ''remove'') ''create_array''" by code_simp
  have str: "SciDB_str \<lparr>db = db0, operator = ''remove'', args = [AStr ''foo''], is_lazy = False\<rparr> = ''remove(foo)''"
    by code_simp
  note b = lazy_call_builds_immediate_call_executes [where d = db0 and opr = "''build''"
      and ?as0.0 = "[]" and as = "[AStr ''<x:int8>[i=0:2]'', AStr ''random()'']"
      and tr = ok_transport and m = mod0 and log = "[]", unfolded Let_def]
  note r = lazy_call_builds_immediate_call_executes [where d = db0 and opr = "''remove''"
      and ?as0.0 = "[]" and as = "[AStr ''foo'']"
      and tr = ok_transport and m = mod0 and log = "[]", unfolded Let_def]
  from b l sb have 1: "SciDB_call ok_transport mod0 (SciDB_init db0 ''build'' [])
       [AStr ''<x:int8>[i=0:2]'', AStr ''random()''] [] =
     Some (Inr (Inl \<lparr>db = db0, operator = ''build'',
                      args = [AStr ''<x:int8>[i=0:2]'', AStr ''random()''], is_lazy = True\<rparr>),
           \<lparr>db = db0, operator = ''build'',
             args = [AStr ''<x:int8>[i=0:2]'', AStr ''random()''], is_lazy = True\<rparr>, [])"
    by (simp add: SciDB_init_def)
  from r i sr obtain res reqs where
    c: "SciDB_call ok_transport mod0 (SciDB_init db0 ''remove'' []) [AStr ''foo''] [] =
        Some (res, \<lparr>db = db0, operator = ''remove'', args = [AStr ''foo''], is_lazy = False\<rparr>, reqs)"
    and q: "\<forall>r0. ok_transport [] (hd reqs) = Inr r0 \<longrightarrow>
               length reqs = 2 \<and> req_endpoint (reqs ! 1) = execute_query \<and>
               map_of (req_params (reqs ! 1)) ''query'' =
                 Some (PStr (SciDB_str \<lparr>db = db0, operator = ''remove'', args = [AStr ''foo''], is_lazy = False\<rparr>))"
    by (auto simp: SciDB_init_def)
  from q str have "length reqs = 2 \<and> req_endpoint (reqs ! 1) = execute_query \<and>
      map_of (req_params (reqs ! 1)) ''query'' = Some (PStr ''remove(foo)'')"
    by (simp add: ok_transport_def)
  with l i 1 c show ?thesis by blast
qed

section \<open>The first pass\<close>

subsection \<open>Pairs laid end to end\<close>

lemma contiguous_end: "contiguous a ps e \<Longrightarrow> e = a + sum_list (map snd ps)"
proof (induction ps arbitrary: a)
  case Nil
  then show ?case by simp
next
  case (Cons p ps)
  from Cons.prems have "contiguous (a + snd p) ps e" by simp
  from Cons.IH [OF this] show ?case by simp
qed

lemma contiguous_append:
  "contiguous a ps b \<Longrightarrow> contiguous b qs e \<Longrightarrow> contiguous a (ps @ qs) e"
  by (induction ps arbitrary: a) auto

lemma contiguous_nth:
  "contiguous a ps e \<Longrightarrow> Suc k < length ps \<Longrightarrow> fst (ps ! Suc k) = fst (ps ! k) + snd (ps ! k)"
proof (induction ps arbitrary: a k)
  case Nil
  then show ?case by simp
next
  case (Cons p ps)
  show ?case
  proof (cases k)
    case 0
    with Cons.prems show ?thesis by (cases ps) auto
  next
    case (Suc j)
    with Cons.prems Cons.IH [of "a + snd p" j] show ?thesis by simp
  qed
qed

lemma contiguous_first: "contiguous a ps e \<Longrightarrow> ps \<noteq> [] \<Longrightarrow> fst (ps ! 0) = a"
  by (cases ps) auto

lemma contiguous_lower: "contiguous a ps e \<Longrightarrow> p \<in> set ps \<Longrightarrow> a \<le> fst p \<and> fst p + snd p \<le> e"
proof (induction ps arbitrary: a)
  case Nil
  then show ?case by simp
next
  case (Cons q ps)
  from Cons.prems have c: "contiguous (a + snd q) ps e" and q: "fst q = a" by auto
  from contiguous_end [OF c] have e: "a + snd q \<le> e" by simp
  show ?case
  proof (cases "p = q")
    case True
    with q e show ?thesis by simp
  next
    case False
    with Cons.prems have "p \<in> set ps" by simp
    from Cons.IH [OF c this] show ?thesis by simp
  qed
qed

lemma contiguous_sorted: "contiguous a ps e \<Longrightarrow> sorted (map fst ps)"
proof (induction ps arbitrary: a)
  case Nil
  then show ?case by simp
next
  case (Cons q ps)
  from Cons.prems have c: "contiguous (a + snd q) ps e" and q: "fst q = a" by auto
  have "\<forall>x \<in> set ps. fst q \<le> fst x"
    using contiguous_lower [OF c] q by fastforce
  with Cons.IH [OF c] show ?case by simp
qed

lemma rounds_contiguous: "rounds n off bm e \<Longrightarrow> contiguous off (concat bm) e \<and> n \<le> e"
proof (induction bm arbitrary: off)
  case Nil
  then show ?case by simp
next
  case (Cons m bm)
  from Cons.prems have m: "contiguous off m (off + sum_list (map snd m))"
    and r: "rounds n (off + sum_list (map snd m)) bm e" by auto
  from Cons.IH [OF r] contiguous_append [OF m] show ?case by simp
qed

subsection \<open>What a scan that returns has recorded\<close>

lemma scan_record_meta:
  "scan_record isz fs buf off meta = Inr (meta', off') \<Longrightarrow>
     \<exists>new. meta' = meta @ new \<and> length new = length fs \<and> contiguous off new off' \<and>
       (\<forall>i<length fs. isz (fs ! i) buf (fst (new ! i)) = Inr (snd (new ! i)))"
proof (induction fs arbitrary: off meta)
  case Nil
  then show ?case by simp
next
  case (Cons att fs)
  from Cons.prems obtain sz where sz: "isz att buf off = Inr sz"
    and rec: "scan_record isz fs buf (off + sz) (meta @ [(off, sz)]) = Inr (meta', off')"
    by (auto split: sum.splits)
  from Cons.IH [OF rec] obtain new where new: "meta' = (meta @ [(off, sz)]) @ new"
    "length new = length fs" "contiguous (off + sz) new off'"
    "\<forall>i<length fs. isz (fs ! i) buf (fst (new ! i)) = Inr (snd (new ! i))"
    by blast
  have "\<forall>i<length (att # fs). isz ((att # fs) ! i) buf (fst (((off, sz) # new) ! i)) = Inr (snd (((off, sz) # new) ! i))"
    using sz new(4) by (auto simp: nth_Cons split: nat.splits)
  with new show ?case
    by (intro exI [of _ "(off, sz) # new"]) simp
qed

lemma scan_content_rounds_aux:
  assumes ret: "scan_content isz fs buf off acc = Some r"
  shows "case r of Inl _ \<Rightarrow> True
         | Inr bm \<Rightarrow> \<exists>new e. bm = acc @ new \<and> rounds (length buf) off new e \<and>
             (\<forall>meta \<in> set new. length meta = length fs \<and>
                (\<forall>i<length fs. isz (fs ! i) buf (fst (meta ! i)) = Inr (snd (meta ! i))))"
proof -
  let ?P = "\<lambda>(isz :: 'a \<Rightarrow> byte list \<Rightarrow> nat \<Rightarrow> error + nat) fs buf off acc r. case r of Inl _ \<Rightarrow> True
         | Inr bm \<Rightarrow> \<exists>new e. bm = acc @ new \<and> rounds (length buf) off new e \<and>
             (\<forall>meta \<in> set new. length meta = length fs \<and>
                (\<forall>i<length fs. isz (fs ! i) buf (fst (meta ! i)) = Inr (snd (meta ! i))))"
  show ?thesis
  proof (rule scan_content.raw_induct [where P = ?P, OF _ ret])
    fix f :: "('a \<Rightarrow> byte list \<Rightarrow> nat \<Rightarrow> error + nat) \<Rightarrow> 'a list \<Rightarrow> byte list \<Rightarrow> nat \<Rightarrow> meta list \<Rightarrow> (error + meta list) option"
    fix isz fs buf off acc r
    assume IH: "\<And>isz fs buf off acc r. f isz fs buf off acc = Some r \<Longrightarrow> ?P isz fs buf off acc r"
    assume eq: "(if off < length buf then
          (case scan_record isz fs buf off [] of
             Inl e \<Rightarrow> Some (Inl e)
           | Inr (meta, off') \<Rightarrow> f isz fs buf off' (acc @ [meta]))
        else Some (Inr acc)) = Some r"
    show "?P isz fs buf off acc r"
    proof (cases r)
      case (Inl e)
      then show ?thesis by simp
    next
      case (Inr bm)
      show ?thesis
      proof (cases "off < length buf")
        case False
        with eq Inr have "bm = acc" by simp
        have "bm = acc @ [] \<and> rounds (length buf) off [] off" using False \<open>bm = acc\<close> by simp
        then have "\<exists>new e. bm = acc @ new \<and> rounds (length buf) off new e \<and>
               (\<forall>meta \<in> set new. length meta = length fs \<and>
                  (\<forall>i<length fs. isz (fs ! i) buf (fst (meta ! i)) = Inr (snd (meta ! i))))"
          by (intro exI [of _ "[]"] exI [of _ off]) simp
        then show ?thesis unfolding Inr sum.case .
      next
        case True
        with eq have eq': "(case scan_record isz fs buf off [] of
             Inl e \<Rightarrow> Some (Inl e)
           | Inr (meta, off') \<Rightarrow> f isz fs buf off' (acc @ [meta])) = Some r" by simp
        show ?thesis
        proof (cases "scan_record isz fs buf off []")
          case (Inl e)
          with eq' Inr show ?thesis by simp
        next
          case sr0: (Inr p)
          obtain meta off' where p: "p = (meta, off')" by (cases p)
          from sr0 p have sr: "scan_record isz fs buf off [] = Inr (meta, off')" by simp
          from eq' sr Inr have call: "f isz fs buf off' (acc @ [meta]) = Some (Inr bm)" by simp
          from scan_record_meta [OF sr] have m: "length meta = length fs" "contiguous off meta off'"
            "\<forall>i<length fs. isz (fs ! i) buf (fst (meta ! i)) = Inr (snd (meta ! i))"
            by auto
          from contiguous_end [OF m(2)] have off': "off' = off + sum_list (map snd meta)" .
          from IH [OF call] obtain new e where new: "bm = (acc @ [meta]) @ new"
            "rounds (length buf) off' new e"
            "\<forall>meta \<in> set new. length meta = length fs \<and>
                  (\<forall>i<length fs. isz (fs ! i) buf (fst (meta ! i)) = Inr (snd (meta ! i)))"
            by auto
          have "bm = acc @ (meta # new) \<and> rounds (length buf) off (meta # new) e \<and>
               (\<forall>meta \<in> set (meta # new). length meta = length fs \<and>
                  (\<forall>i<length fs. isz (fs ! i) buf (fst (meta ! i)) = Inr (snd (meta ! i))))"
            using True m new off' by simp
          then have "\<exists>new e. bm = acc @ new \<and> rounds (length buf) off new e \<and>
               (\<forall>meta \<in> set new. length meta = length fs \<and>
                  (\<forall>i<length fs. isz (fs ! i) buf (fst (meta ! i)) = Inr (snd (meta ! i))))"
            by (intro exI [of _ "meta # new"] exI [of _ e])
          then show ?thesis unfolding Inr sum.case .
        qed
      qed
    qed
  qed
qed

lemma scan_content_rounds:
  assumes ret: "scan_content isz fs buf 0 [] = Some (Inr bm)"
  shows "\<exists>e. rounds (length buf) 0 bm e \<and>
           (\<forall>meta \<in> set bm. length meta = length fs \<and>
              (\<forall>i<length fs. isz (fs ! i) buf (fst (meta ! i)) = Inr (snd (meta ! i))))"
  using scan_content_rounds_aux [OF ret] by simp

text \<open>
  Claim C8, as amended. Whatever the fields' widths are, the pairs that a scan has
  recorded, taken in order over all records, start at offset 0, each next pair starts
  where the one before it ends, the offsets never decrease, and the pairs cover the
  buffer: their widths sum to the length of the buffer or more. That they cover no more
  than the buffer is not a property of the first pass.
\<close>

theorem first_pass_offsets_chain:
  assumes "scan_content isz fs buf 0 [] = Some (Inr buf_meta)"
  shows "(concat buf_meta \<noteq> [] \<longrightarrow> fst (concat buf_meta ! 0) = 0) \<and>
         (\<forall>k. Suc k < length (concat buf_meta) \<longrightarrow>
            fst (concat buf_meta ! Suc k) = fst (concat buf_meta ! k) + snd (concat buf_meta ! k)) \<and>
         sorted (map fst (concat buf_meta)) \<and>
         length buf \<le> sum_list (map snd (concat buf_meta))"
proof -
  from scan_content_rounds [OF assms] obtain e where "rounds (length buf) 0 buf_meta e" by blast
  from rounds_contiguous [OF this] have c: "contiguous 0 (concat buf_meta) e" and e: "length buf \<le> e"
    by auto
  from contiguous_end [OF c] e have "length buf \<le> sum_list (map snd (concat buf_meta))" by simp
  with contiguous_first [OF c] contiguous_nth [OF c] contiguous_sorted [OF c] show ?thesis by blast
qed

text \<open>
  The first pass on the download of \<^verbatim>\<open>scan(foo)\<close>: three records of an eight-byte and
  a nine-byte field, 51 bytes in all.
\<close>

theorem first_pass_offsets_chain_witness:
  "scan_content (itemsize no_rule) [field_i, field_x] buf_foo 0 [] =
     Some (Inr [[(0, 8), (8, 9)], [(17, 8), (25, 9)], [(34, 8), (42, 9)]]) \<and>
   fst (concat ([[(0, 8), (8, 9)], [(17, 8), (25, 9)], [(34, 8), (42, 9)]] :: meta list) ! 0) = 0 \<and>
   fst (concat ([[(0, 8), (8, 9)], [(17, 8), (25, 9)], [(34, 8), (42, 9)]] :: meta list) ! Suc 1) =
     fst (concat ([[(0, 8), (8, 9)], [(17, 8), (25, 9)], [(34, 8), (42, 9)]] :: meta list) ! 1) +
     snd (concat ([[(0, 8), (8, 9)], [(17, 8), (25, 9)], [(34, 8), (42, 9)]] :: meta list) ! 1) \<and>
   sorted (map fst (concat ([[(0, 8), (8, 9)], [(17, 8), (25, 9)], [(34, 8), (42, 9)]] :: meta list))) \<and>
   length buf_foo \<le> sum_list (map snd (concat ([[(0, 8), (8, 9)], [(17, 8), (25, 9)], [(34, 8), (42, 9)]] :: meta list)))"
proof -
  let ?bm = "[[(0, 8), (8, 9)], [(17, 8), (25, 9)], [(34, 8), (42, 9)]] :: meta list"
  have h: "scan_content (itemsize no_rule) [field_i, field_x] buf_foo 0 [] = Some (Inr ?bm)"
    by code_simp
  have ne: "concat ?bm \<noteq> []" and l: "Suc 1 < length (concat ?bm)" by simp_all
  from first_pass_offsets_chain [OF h] ne l h show ?thesis by blast
qed

text \<open>
  Claim C8 as stated fails on a buffer that ends inside a record: of twelve bytes, the
  first pass records the pairs \<open>(0, 8)\<close> and \<open>(8, 8)\<close>, sixteen bytes, and returns.
\<close>

theorem first_pass_overruns_truncated_buffer:
  "scan_content (itemsize no_rule) [field_i] buf_cut 0 [] = Some (Inr [[(0, 8)], [(8, 8)]]) \<and>
   length buf_cut = 12 \<and>
   sum_list (map snd (concat ([[(0, 8)], [(8, 8)]] :: meta list))) = 16"
  by code_simp

section \<open>The second pass\<close>

lemma extract_record_Inr:
  "extract_record frb buf promo zs = Inr row \<longleftrightarrow>
     list_all2 (\<lambda>z v. frb (fst z) buf (fst (snd z)) (snd (snd z)) promo = Inr v) zs row"
proof (induction zs arbitrary: row)
  case Nil
  show ?case by (cases row) auto
next
  case (Cons z zs)
  obtain att off sz where z: "z = (att, off, sz)" by (cases z)
  show ?case
  proof (cases row)
    case Nil
    then show ?thesis using z by (simp split: sum.splits)
  next
    case (Cons v vs)
    have "extract_record frb buf promo (z # zs) = Inr (v # vs) \<longleftrightarrow>
            frb att buf off sz promo = Inr v \<and> extract_record frb buf promo zs = Inr vs"
      using z by (simp split: sum.splits)
    with Cons.IH [of vs] z Cons show ?thesis by simp
  qed
qed

lemma extract_record_Inl:
  "extract_record frb buf promo zs = Inl e \<Longrightarrow>
     \<exists>z \<in> set zs. frb (fst z) buf (fst (snd z)) (snd (snd z)) promo = Inl e"
proof (induction zs)
  case Nil
  then show ?case by simp
next
  case (Cons z zs)
  obtain att off sz where z: "z = (att, off, sz)" by (cases z)
  show ?case
  proof (cases "frb att buf off sz promo")
    case (Inl e')
    with Cons.prems z have "e' = e" by simp
    with Inl z show ?thesis by simp
  next
    case (Inr v)
    with Cons.prems z have "extract_record frb buf promo zs = Inl e"
      by (cases "extract_record frb buf promo zs") simp_all
    from Cons.IH [OF this] show ?thesis by simp
  qed
qed

lemma populate_Inr:
  "populate frb fs buf promo bm = Inr rows \<longleftrightarrow>
     list_all2 (\<lambda>meta row. extract_record frb buf promo (zip fs meta) = Inr row) bm rows"
proof (induction bm arbitrary: rows)
  case Nil
  show ?case by (cases rows) auto
next
  case (Cons meta bm)
  show ?case
  proof (cases rows)
    case Nil
    then show ?thesis by (simp split: sum.splits)
  next
    case (Cons r rs)
    have "populate frb fs buf promo (meta # bm) = Inr (r # rs) \<longleftrightarrow>
            extract_record frb buf promo (zip fs meta) = Inr r \<and> populate frb fs buf promo bm = Inr rs"
      by (simp split: sum.splits)
    with Cons.IH [of rs] Cons show ?thesis by simp
  qed
qed

lemma populate_Inl:
  "populate frb fs buf promo bm = Inl e \<Longrightarrow>
     \<exists>meta \<in> set bm. extract_record frb buf promo (zip fs meta) = Inl e"
proof (induction bm)
  case Nil
  then show ?case by simp
next
  case (Cons meta bm)
  show ?case
  proof (cases "extract_record frb buf promo (zip fs meta)")
    case (Inl e')
    with Cons.prems have "e' = e" by simp
    with Inl show ?thesis by simp
  next
    case (Inr row)
    with Cons.prems have "populate frb fs buf promo bm = Inl e"
      by (cases "populate frb fs buf promo bm") simp_all
    from Cons.IH [OF this] show ?thesis by simp
  qed
qed

text \<open>A row of a populated array holds, field by field, what the field's method returned.\<close>

lemma populate_nth:
  assumes "populate frb fs buf promo bm = Inr rows"
    and "\<forall>meta \<in> set bm. length meta = length fs"
  shows "length rows = length bm \<and>
         (\<forall>r<length bm. length (rows ! r) = length fs \<and>
            (\<forall>i<length fs. frb (fs ! i) buf (fst (bm ! r ! i)) (snd (bm ! r ! i)) promo = Inr (rows ! r ! i)))"
proof -
  from assms(1) have l2: "list_all2 (\<lambda>meta row. extract_record frb buf promo (zip fs meta) = Inr row) bm rows"
    by (simp add: populate_Inr)
  then have len: "length rows = length bm" by (simp add: list_all2_lengthD)
  have "length (rows ! r) = length fs \<and>
            (\<forall>i<length fs. frb (fs ! i) buf (fst (bm ! r ! i)) (snd (bm ! r ! i)) promo = Inr (rows ! r ! i))"
    if r: "r < length bm" for r
  proof -
    from list_all2_nthD [OF l2 r]
    have "extract_record frb buf promo (zip fs (bm ! r)) = Inr (rows ! r)" by simp
    then have l: "list_all2 (\<lambda>z v. frb (fst z) buf (fst (snd z)) (snd (snd z)) promo = Inr v) (zip fs (bm ! r)) (rows ! r)"
      by (simp add: extract_record_Inr)
    from r assms(2) have lm: "length (bm ! r) = length fs" by simp
    from l lm have lr: "length (rows ! r) = length fs" by (auto dest: list_all2_lengthD)
    have "frb (fs ! i) buf (fst (bm ! r ! i)) (snd (bm ! r ! i)) promo = Inr (rows ! r ! i)"
      if "i < length fs" for i
      using list_all2_nthD [OF l, of i] that lm by simp
    with lr show ?thesis by blast
  qed
  with len show ?thesis by blast
qed

subsection \<open>The two methods of a field\<close>

lemma itemsize_nullable_pos: "\<not> not_null att \<Longrightarrow> itemsize rule att buf off = Inr sz \<Longrightarrow> 0 < sz"
  by (auto simp: itemsize_def Let_def split: option.splits)

lemma frombytes_nullable:
  assumes "\<not> not_null att" "off + sz \<le> length buf" "0 < sz"
  shows "frombytes att buf off sz promo =
           (case interp (type_name att) (take (sz - 1) (drop (Suc off) buf)) of
              Inl e \<Rightarrow> Inl e
            | Inr v \<Rightarrow> Inr (if promo then (if present (buf ! off) then widen v
                                            else sentinel (type_name att))
                            else PairV (buf ! off) v))"
proof -
  from assms have "off < length buf" by simp
  then have "drop off buf = buf ! off # drop (Suc off) buf" by (simp add: Cons_nth_drop_Suc)
  moreover from assms obtain k where "sz = Suc k" by (cases sz) auto
  ultimately have "take sz (drop off buf) = buf ! off # take (sz - 1) (drop (Suc off) buf)"
    by simp
  with assms show ?thesis by (simp add: frombytes_def split: sum.splits)
qed

lemma frombytes_measured:
  assumes "itemsize rule att buf' off' = Inr sz"
  shows "(length buf < off + sz \<and> frombytes att buf off sz promo = Inl TruncatedBuffer) \<or>
         (off + sz \<le> length buf \<and> (\<exists>v. frombytes att buf off sz promo = Inr v))"
proof (cases "length buf < off + sz")
  case True
  then show ?thesis by (simp add: frombytes_def)
next
  case False
  then have inb: "off + sz \<le> length buf" by simp
  then have len: "length (take sz (drop off buf)) = sz" by simp
  show ?thesis
  proof (cases "not_null att")
    case True
    with assms inb len show ?thesis
      by (cases "type_name att") (auto simp: frombytes_def itemsize_def split: option.splits)
  next
    case nn: False
    from itemsize_nullable_pos [OF nn assms] have pos: "0 < sz" .
    from inb pos have l2: "length (take (sz - 1) (drop (Suc off) buf)) = sz - 1" by simp
    have "\<exists>v. interp (type_name att) (take (sz - 1) (drop (Suc off) buf)) = Inr v"
    proof (cases "type_name att")
      case TInt64
      with assms nn have "sz = 9" by (simp add: itemsize_def)
      with l2 TInt64 show ?thesis by simp
    next
      case TString
      then show ?thesis by simp
    qed
    with frombytes_nullable [OF nn inb pos, of promo] inb show ?thesis by auto
  qed
qed

subsection \<open>A buffer that the widths do not consume\<close>

lemma contiguous_upper:
  "contiguous a ps e \<Longrightarrow> a \<le> n \<Longrightarrow> \<forall>p \<in> set ps. fst p + snd p \<le> n \<Longrightarrow> e \<le> n"
proof (induction ps arbitrary: a)
  case Nil
  then show ?case by simp
next
  case (Cons q ps)
  from Cons.prems have c: "contiguous (a + snd q) ps e" and q: "fst q = a" by auto
  from Cons.prems q have "a + snd q \<le> n" by auto
  from Cons.IH [OF c this] Cons.prems show ?case by simp
qed

lemma second_pass_error:
  assumes meta: "\<forall>meta \<in> set bm. length meta = length fs \<and>
      (\<forall>i<length fs. itemsize rule (fs ! i) buf (fst (meta ! i)) = Inr (snd (meta ! i)))"
    and err: "populate frombytes fs buf promo bm = Inl err"
  shows "err = TruncatedBuffer"
proof -
  from populate_Inl [OF err] obtain m where m: "m \<in> set bm"
    and ex: "extract_record frombytes buf promo (zip fs m) = Inl err" by blast
  from extract_record_Inl [OF ex] obtain z where z: "z \<in> set (zip fs m)"
    and fz: "frombytes (fst z) buf (fst (snd z)) (snd (snd z)) promo = Inl err" by blast
  from z obtain i where i: "i < length fs" "fs ! i = fst z" "m ! i = snd z"
    by (auto simp: in_set_zip)
  from meta m i(1) have "itemsize rule (fs ! i) buf (fst (m ! i)) = Inr (snd (m ! i))" by blast
  from frombytes_measured [OF this, of buf "fst (m ! i)" promo] fz i show ?thesis by auto
qed

lemma second_pass_success:
  assumes meta: "\<forall>meta \<in> set bm. length meta = length fs \<and>
      (\<forall>i<length fs. itemsize rule (fs ! i) buf (fst (meta ! i)) = Inr (snd (meta ! i)))"
    and ok: "populate frombytes fs buf promo bm = Inr rows"
  shows "\<forall>p \<in> set (concat bm). fst p + snd p \<le> length buf"
proof
  fix p assume "p \<in> set (concat bm)"
  then obtain m where m: "m \<in> set bm" and p: "p \<in> set m" by auto
  from m obtain r where r: "r < length bm" "bm ! r = m" by (auto simp: in_set_conv_nth)
  from p obtain i where i: "i < length m" "m ! i = p" by (auto simp: in_set_conv_nth)
  from meta m i(1) have il: "i < length fs"
    and sz: "itemsize rule (fs ! i) buf (fst (m ! i)) = Inr (snd (m ! i))" by auto
  from meta have "\<forall>meta \<in> set bm. length meta = length fs" by blast
  from populate_nth [OF ok this] r il
  have "frombytes (fs ! i) buf (fst (m ! i)) (snd (m ! i)) promo = Inr (rows ! r ! i)" by auto
  with frombytes_measured [OF sz, of buf "fst (m ! i)" promo] i show "fst p + snd p \<le> length buf"
    by auto
qed

lemma decode_overrun:
  assumes scan: "scan_content (itemsize rule) fs buf 0 [] = Some (Inr bm)"
    and ne: "sum_list (map snd (concat bm)) \<noteq> length buf"
  shows "decode (itemsize rule) frombytes fs buf promo = Some (Inl TruncatedBuffer)"
proof -
  from scan_content_rounds [OF scan] obtain e where rd: "rounds (length buf) 0 bm e"
    and meta: "\<forall>meta \<in> set bm. length meta = length fs \<and>
      (\<forall>i<length fs. itemsize rule (fs ! i) buf (fst (meta ! i)) = Inr (snd (meta ! i)))"
    by blast
  from rounds_contiguous [OF rd] have c: "contiguous 0 (concat bm) e" and e: "length buf \<le> e"
    by auto
  from contiguous_end [OF c] ne e have over: "length buf < e" by simp
  have "populate frombytes fs buf promo bm = Inl TruncatedBuffer"
  proof (cases "populate frombytes fs buf promo bm")
    case (Inl err)
    with second_pass_error [OF meta Inl] show ?thesis by simp
  next
    case (Inr rows)
    from second_pass_success [OF meta Inr] have "\<forall>p \<in> set (concat bm). fst p + snd p \<le> length buf" .
    from contiguous_upper [OF c _ this] have "e \<le> length buf" by simp
    with over show ?thesis by simp
  qed
  with scan show ?thesis by (simp add: decode_def)
qed

lemma decode_exact:
  assumes scan: "scan_content (itemsize rule) fs buf 0 [] = Some (Inr bm)"
    and eq: "sum_list (map snd (concat bm)) = length buf"
  shows "\<exists>rows. decode (itemsize rule) frombytes fs buf promo = Some (Inr rows) \<and>
           length rows = length bm"
proof -
  from scan_content_rounds [OF scan] obtain e where rd: "rounds (length buf) 0 bm e"
    and meta: "\<forall>meta \<in> set bm. length meta = length fs \<and>
      (\<forall>i<length fs. itemsize rule (fs ! i) buf (fst (meta ! i)) = Inr (snd (meta ! i)))"
    by blast
  from rounds_contiguous [OF rd] have c: "contiguous 0 (concat bm) e" by auto
  from contiguous_end [OF c] eq have e: "e = length buf" by simp
  show ?thesis
  proof (cases "populate frombytes fs buf promo bm")
    case (Inl err)
    from populate_Inl [OF Inl] obtain m where m: "m \<in> set bm"
      and ex: "extract_record frombytes buf promo (zip fs m) = Inl err" by blast
    from extract_record_Inl [OF ex] obtain z where z: "z \<in> set (zip fs m)"
      and fz: "frombytes (fst z) buf (fst (snd z)) (snd (snd z)) promo = Inl err" by blast
    from z obtain i where i: "i < length fs" "fs ! i = fst z" "m ! i = snd z" "i < length m"
      by (auto simp: in_set_zip)
    from meta m i(1) have "itemsize rule (fs ! i) buf (fst (m ! i)) = Inr (snd (m ! i))" by blast
    from frombytes_measured [OF this, of buf "fst (m ! i)" promo] fz i
    have over: "length buf < fst (m ! i) + snd (m ! i)" by auto
    from i(4) have "m ! i \<in> set m" by simp
    with m have "m ! i \<in> set (concat bm)" by auto
    from contiguous_lower [OF c this] e over show ?thesis by simp
  next
    case (Inr rows)
    from meta have "\<forall>meta \<in> set bm. length meta = length fs" by blast
    from populate_nth [OF Inr this] have "length rows = length bm" by simp
    with scan Inr show ?thesis by (simp add: decode_def)
  qed
qed

text \<open>
  Claim C2. When the first pass has returned and the widths it recorded do not sum to the
  length of the buffer, the decoding fails with \<open>TruncatedBuffer\<close>, whatever the
  promotion flag: the result is the error and no row. The failure is raised in the second
  pass, by the first field that reaches beyond the end of the buffer.
\<close>

theorem truncated_buffer_fails:
  assumes "scan_content (itemsize rule) fs buf 0 [] = Some (Inr buf_meta)"
    and "sum_list (map snd (concat buf_meta)) \<noteq> length buf"
  shows "decode (itemsize rule) frombytes fs buf promo = Some (Inl TruncatedBuffer)"
  using assms by (rule decode_overrun)

text \<open>A buffer of one record and a half.\<close>

theorem truncated_buffer_fails_witness:
  "scan_content (itemsize no_rule) [field_i] buf_cut 0 [] = Some (Inr [[(0, 8)], [(8, 8)]]) \<and>
   sum_list (map snd (concat ([[(0, 8)], [(8, 8)]] :: meta list))) \<noteq> length buf_cut \<and>
   decode (itemsize no_rule) frombytes [field_i] buf_cut False = Some (Inl TruncatedBuffer)"
proof -
  have h: "scan_content (itemsize no_rule) [field_i] buf_cut 0 [] = Some (Inr [[(0, 8)], [(8, 8)]])"
    by code_simp
  have n: "sum_list (map snd (concat ([[(0, 8)], [(8, 8)]] :: meta list))) \<noteq> length buf_cut"
    by code_simp
  from truncated_buffer_fails [OF h n] h n show ?thesis by blast
qed

subsection \<open>Fields of fixed width\<close>

lemma const_width_itemsize:
  "const_width att = Some w \<Longrightarrow> itemsize rule att buf off = Inr w \<and> 8 \<le> w"
  by (cases "type_name att") (auto simp: const_width_def itemsize_def)

lemma scan_record_const:
  "map const_width fs = map Some ws \<Longrightarrow>
     \<exists>m. scan_record (itemsize rule) fs buf off meta = Inr (m, off + sum_list ws)"
proof (induction fs arbitrary: ws off meta)
  case Nil
  then show ?case by simp
next
  case (Cons att fs)
  from Cons.prems obtain w ws' where ws: "ws = w # ws'" "const_width att = Some w"
    "map const_width fs = map Some ws'" by (cases ws) auto
  from const_width_itemsize [OF ws(2)] have "itemsize rule att buf off = Inr w" by simp
  moreover from Cons.IH [OF ws(3), of "off + w" "meta @ [(off, w)]"]
  obtain m where "scan_record (itemsize rule) fs buf (off + w) (meta @ [(off, w)]) = Inr (m, off + w + sum_list ws')"
    by blast
  ultimately show ?case using ws(1) by (simp add: add.assoc)
qed

lemma const_widths_pos:
  assumes "fs \<noteq> []" "map const_width fs = map Some ws"
  shows "0 < sum_list ws"
proof -
  from assms obtain att fs' where fs: "fs = att # fs'" by (cases fs) auto
  with assms(2) obtain w ws' where ws: "ws = w # ws'" "const_width att = Some w" by (cases ws) auto
  from const_width_itemsize [OF ws(2)] have "8 \<le> w" by simp
  with ws(1) show ?thesis by simp
qed

lemma scan_content_total:
  assumes step: "\<And>off. \<exists>m off'. scan_record isz fs buf off [] = Inr (m, off') \<and> off < off'"
  shows "\<exists>bm. scan_content isz fs buf off acc = Some (Inr bm)"
proof (induction "length buf - off" arbitrary: off acc rule: less_induct)
  case less
  show ?case
  proof (cases "off < length buf")
    case False
    then show ?thesis by (subst scan_content.simps) simp
  next
    case True
    from step [of off] obtain m off' where sr: "scan_record isz fs buf off [] = Inr (m, off')"
      and lt: "off < off'" by blast
    from True lt have "length buf - off' < length buf - off" by arith
    from less [OF this] obtain bm where "scan_content isz fs buf off' (acc @ [m]) = Some (Inr bm)"
      by blast
    with True sr show ?thesis by (subst scan_content.simps) simp
  qed
qed

lemma rounds_const:
  "rounds n off bm e \<Longrightarrow> \<forall>m \<in> set bm. sum_list (map snd m) = W \<Longrightarrow>
     e = off + length bm * W \<and> (bm \<noteq> [] \<longrightarrow> off + (length bm - 1) * W < n)"
proof (induction bm arbitrary: off)
  case Nil
  then show ?case by simp
next
  case (Cons m bm)
  from Cons.prems have W: "sum_list (map snd m) = W" and lt: "off < n"
    and r: "rounds n (off + W) bm e" and all: "\<forall>m \<in> set bm. sum_list (map snd m) = W" by auto
  from Cons.IH [OF r all] have e: "e = off + W + length bm * W"
    and b: "bm \<noteq> [] \<longrightarrow> off + W + (length bm - 1) * W < n" by auto
  show ?case
  proof (cases bm)
    case Nil
    with e lt show ?thesis by simp
  next
    case (Cons m' bm')
    with b have "off + W + length bm' * W < n" by simp
    with e Cons show ?thesis by simp
  qed
qed

lemma fixed_record_count:
  assumes ne: "fs \<noteq> []" and cw: "map const_width fs = map Some ws"
  shows "\<exists>bm. scan_content (itemsize rule) fs buf 0 [] = Some (Inr bm) \<and>
           sum_list (map snd (concat bm)) = length bm * sum_list ws \<and>
           (sum_list ws dvd length buf \<longrightarrow> length bm = length buf div sum_list ws) \<and>
           (\<not> sum_list ws dvd length buf \<longrightarrow> length bm * sum_list ws \<noteq> length buf)"
proof -
  let ?W = "sum_list ws"
  from const_widths_pos [OF ne cw] have W: "0 < ?W" .
  have "\<exists>m off'. scan_record (itemsize rule) fs buf off [] = Inr (m, off') \<and> off < off'" for off
    using scan_record_const [OF cw, of rule buf off "[]"] W by auto
  from scan_content_total [of "itemsize rule" fs buf 0 "[]", OF this]
  obtain bm where scan: "scan_content (itemsize rule) fs buf 0 [] = Some (Inr bm)" by blast
  from scan_content_rounds [OF scan] obtain e where rd: "rounds (length buf) 0 bm e"
    and meta: "\<forall>meta \<in> set bm. length meta = length fs \<and>
      (\<forall>i<length fs. itemsize rule (fs ! i) buf (fst (meta ! i)) = Inr (snd (meta ! i)))"
    by blast
  have lens: "length ws = length fs" using cw by (metis length_map)
  have "sum_list (map snd m) = ?W" if m: "m \<in> set bm" for m
  proof -
    have "map snd m = ws"
    proof (rule nth_equalityI)
      show "length (map snd m) = length ws" using meta m lens by simp
    next
      fix i assume "i < length (map snd m)"
      with meta m have i: "i < length fs" "i < length m"
        and sz: "itemsize rule (fs ! i) buf (fst (m ! i)) = Inr (snd (m ! i))" by auto
      from cw i(1) lens have "const_width (fs ! i) = Some (ws ! i)"
        by (metis nth_map)
      from const_width_itemsize [OF this, of rule buf "fst (m ! i)"] sz i
      show "map snd m ! i = ws ! i" by simp
    qed
    then show ?thesis by simp
  qed
  then have all: "\<forall>m \<in> set bm. sum_list (map snd m) = ?W" by blast
  from rounds_const [OF rd all] have e: "e = length bm * ?W"
    and lo: "bm \<noteq> [] \<longrightarrow> (length bm - 1) * ?W < length buf" by auto
  from rounds_contiguous [OF rd] have c: "contiguous 0 (concat bm) e" and hi: "length buf \<le> e"
    by auto
  from contiguous_end [OF c] e have total: "sum_list (map snd (concat bm)) = length bm * ?W" by simp
  have cnt: "length bm = length buf div ?W" if "?W dvd length buf"
  proof -
    from that obtain q where q: "length buf = q * ?W" by (auto simp: dvd_def mult.commute)
    from hi e q W have "q \<le> length bm" by simp
    moreover have "length bm \<le> q"
    proof (cases "bm = []")
      case True
      then show ?thesis by simp
    next
      case False
      with lo q W have "length bm - 1 < q" by simp
      then show ?thesis by simp
    qed
    ultimately have "length bm = q" by simp
    with q W show ?thesis by simp
  qed
  have "length bm * ?W \<noteq> length buf" if "\<not> ?W dvd length buf"
    using that by (metis dvd_triv_right)
  with scan total cnt show ?thesis by blast
qed

text \<open>
  Claim C4. For a non-empty sequence of fields of fixed widths \<open>ws\<close>, the decoding
  returns: with \<open>length buf div sum_list ws\<close> records when the sum of the widths divides
  the length of the buffer, and with \<open>TruncatedBuffer\<close> when it does not.
\<close>

theorem fixed_width_record_count:
  assumes "fs \<noteq> []" and "map const_width fs = map Some ws"
  shows "(sum_list ws dvd length buf \<longrightarrow>
            (\<exists>rows. decode (itemsize rule) frombytes fs buf promo = Some (Inr rows) \<and>
                    length rows = length buf div sum_list ws)) \<and>
         (\<not> sum_list ws dvd length buf \<longrightarrow>
            decode (itemsize rule) frombytes fs buf promo = Some (Inl TruncatedBuffer))"
proof -
  from fixed_record_count [OF assms, of rule buf]
  obtain bm where scan: "scan_content (itemsize rule) fs buf 0 [] = Some (Inr bm)"
    and total: "sum_list (map snd (concat bm)) = length bm * sum_list ws"
    and cnt: "sum_list ws dvd length buf \<longrightarrow> length bm = length buf div sum_list ws"
    and odd: "\<not> sum_list ws dvd length buf \<longrightarrow> length bm * sum_list ws \<noteq> length buf"
    by blast
  from const_widths_pos [OF assms] have W: "0 < sum_list ws" .
  have a: "\<exists>rows. decode (itemsize rule) frombytes fs buf promo = Some (Inr rows) \<and>
                    length rows = length buf div sum_list ws"
    if d: "sum_list ws dvd length buf"
  proof -
    from d cnt total W have "sum_list (map snd (concat bm)) = length buf" by simp
    from decode_exact [OF scan this, of promo] d cnt show ?thesis by auto
  qed
  have b: "decode (itemsize rule) frombytes fs buf promo = Some (Inl TruncatedBuffer)"
    if "\<not> sum_list ws dvd length buf"
    using decode_overrun [OF scan, of promo] that odd total by simp
  from a b show ?thesis by blast
qed

text \<open>
  The 51 bytes of \<^verbatim>\<open>scan(foo)\<close> are three records of 17 bytes; with the last byte
  missing they are a truncated buffer.
\<close>

theorem fixed_width_record_count_witness:
  "[field_i, field_x] \<noteq> [] \<and> map const_width [field_i, field_x] = map Some [8, 9] \<and>
   sum_list [8, 9 :: nat] dvd length buf_foo \<and>
   (\<exists>rows. decode (itemsize no_rule) frombytes [field_i, field_x] buf_foo False = Some (Inr rows) \<and>
      length rows = 3) \<and>
   \<not> sum_list [8, 9 :: nat] dvd length buf_foo_short \<and>
   decode (itemsize no_rule) frombytes [field_i, field_x] buf_foo_short False = Some (Inl TruncatedBuffer)"
proof -
  have ne: "[field_i, field_x] \<noteq> []" by simp
  have cw: "map const_width [field_i, field_x] = map Some [8, 9]" by code_simp
  have d: "sum_list [8, 9 :: nat] dvd length buf_foo" by code_simp
  have nd: "\<not> sum_list [8, 9 :: nat] dvd length buf_foo_short" by code_simp
  have q: "length buf_foo div sum_list [8, 9 :: nat] = 3" by code_simp
  from fixed_width_record_count [OF ne cw, of buf_foo no_rule False] d q
  have 1: "\<exists>rows. decode (itemsize no_rule) frombytes [field_i, field_x] buf_foo False = Some (Inr rows) \<and>
      length rows = 3" by simp
  from fixed_width_record_count [OF ne cw, of buf_foo_short no_rule False] nd
  have 2: "decode (itemsize no_rule) frombytes [field_i, field_x] buf_foo_short False = Some (Inl TruncatedBuffer)"
    by blast
  from ne cw d nd 1 2 show ?thesis by blast
qed

subsection \<open>When the scan returns\<close>

lemma scan_content_returns:
  assumes pos: "\<And>off m off'. scan_record isz fs buf off [] = Inr (m, off') \<Longrightarrow> off < off'"
  shows "\<exists>r. scan_content isz fs buf off acc = Some r"
proof (induction "length buf - off" arbitrary: off acc rule: less_induct)
  case less
  show ?case
  proof (cases "off < length buf")
    case False
    then show ?thesis by (subst scan_content.simps) simp
  next
    case True
    show ?thesis
    proof (cases "scan_record isz fs buf off []")
      case (Inl e)
      with True show ?thesis by (subst scan_content.simps) simp
    next
      case (Inr p)
      obtain m off' where p: "p = (m, off')" by (cases p)
      with Inr pos have "off < off'" by blast
      with True have "length buf - off' < length buf - off" by arith
      from less [OF this] obtain r where "scan_content isz fs buf off' (acc @ [m]) = Some r"
        by blast
      with True Inr p show ?thesis by (subst scan_content.simps) simp
    qed
  qed
qed

text \<open>
  With the widths of the specification, a round moves on as soon as one field is nullable
  or of fixed width, and the decoding returns, with rows or with an error.
\<close>

lemma itemsize_pos:
  "\<not> not_null att \<or> fixed_width (type_name att) \<noteq> None \<Longrightarrow>
     itemsize rule att buf off = Inr sz \<Longrightarrow> 0 < sz"
  by (cases "type_name att") (auto simp: itemsize_def Let_def split: option.splits if_splits)

lemma decode_returns:
  assumes "\<exists>att \<in> set fs. \<not> not_null att \<or> fixed_width (type_name att) \<noteq> None"
  shows "\<exists>r. decode (itemsize rule) frombytes fs buf promo = Some r"
proof -
  from assms obtain att where att: "att \<in> set fs"
    and w: "\<not> not_null att \<or> fixed_width (type_name att) \<noteq> None" by blast
  from att obtain i where i: "i < length fs" "fs ! i = att" by (auto simp: in_set_conv_nth)
  have prog: "off < off'"
    if sr: "scan_record (itemsize rule) fs buf off [] = Inr (m, off')" for off m off'
  proof -
    from scan_record_meta [OF sr] have len: "length m = length fs" and c: "contiguous off m off'"
      and sz: "\<forall>i<length fs. itemsize rule (fs ! i) buf (fst (m ! i)) = Inr (snd (m ! i))"
      by auto
    from sz i have "itemsize rule att buf (fst (m ! i)) = Inr (snd (m ! i))" by auto
    from itemsize_pos [OF w this] have pos: "0 < snd (m ! i)" .
    from i len have "m ! i \<in> set m" by simp
    from contiguous_lower [OF c this] pos show ?thesis by simp
  qed
  have "\<exists>r. scan_content (itemsize rule) fs buf 0 [] = Some r"
    by (rule scan_content_returns) (rule prog)
  then obtain r where "scan_content (itemsize rule) fs buf 0 [] = Some r" by blast
  then show ?thesis by (cases r) (simp_all add: decode_def)
qed

text \<open>
  With no field at all a round records nothing and leaves the offset where it was: on a
  buffer that is not empty the loop of the source never ends.
\<close>

lemma scan_no_fields_aux:
  assumes ret: "scan_content isz fs buf off acc = Some r"
  shows "\<not> (fs = [] \<and> off < length buf)"
proof -
  let ?P = "\<lambda>(isz :: 'a \<Rightarrow> byte list \<Rightarrow> nat \<Rightarrow> error + nat) (fs :: 'a list) (buf :: byte list)
              (off :: nat) (acc :: meta list) (r :: error + meta list).
              \<not> (fs = [] \<and> off < length buf)"
  show ?thesis
  proof (rule scan_content.raw_induct [where P = ?P, OF _ ret])
    fix f :: "('a \<Rightarrow> byte list \<Rightarrow> nat \<Rightarrow> error + nat) \<Rightarrow> 'a list \<Rightarrow> byte list \<Rightarrow> nat \<Rightarrow> meta list \<Rightarrow> (error + meta list) option"
    fix isz fs buf off acc r
    assume IH: "\<And>isz fs buf off acc r. f isz fs buf off acc = Some r \<Longrightarrow> ?P isz fs buf off acc r"
    assume eq: "(if off < length buf then
          (case scan_record isz fs buf off [] of
             Inl e \<Rightarrow> Some (Inl e)
           | Inr (meta, off') \<Rightarrow> f isz fs buf off' (acc @ [meta]))
        else Some (Inr acc)) = Some r"
    show "?P isz fs buf off acc r"
    proof
      assume a: "fs = [] \<and> off < length buf"
      with eq have "f isz [] buf off (acc @ [[]]) = Some r" by simp
      from IH [OF this] a show False by simp
    qed
  qed
qed

lemma decode_no_fields_diverges: "buf \<noteq> [] \<Longrightarrow> decode isz frb [] buf promo = None"
proof -
  assume "buf \<noteq> []"
  then have "scan_content isz [] buf 0 [] = None"
    using scan_no_fields_aux [of isz "[]" buf 0 "[]"]
    by (cases "scan_content isz [] buf 0 []") auto
  then show ?thesis by (simp add: decode_def)
qed

section \<open>The two passes together\<close>

lemma decode_fields:
  assumes dec: "decode (itemsize rule) frombytes fs buf promo = Some (Inr rows)"
  shows "\<exists>buf_meta e.
     scan_content (itemsize rule) fs buf 0 [] = Some (Inr buf_meta) \<and>
     rounds (length buf) 0 buf_meta e \<and>
     length rows = length buf_meta \<and>
     (\<forall>r<length buf_meta. length (buf_meta ! r) = length fs \<and> length (rows ! r) = length fs \<and>
        (\<forall>i<length fs.
           itemsize rule (fs ! i) buf (fst (buf_meta ! r ! i)) = Inr (snd (buf_meta ! r ! i)) \<and>
           frombytes (fs ! i) buf (fst (buf_meta ! r ! i)) (snd (buf_meta ! r ! i)) promo =
             Inr (rows ! r ! i) \<and>
           (\<not> not_null (fs ! i) \<longrightarrow>
              (\<exists>v. interp (type_name (fs ! i))
                      (take (snd (buf_meta ! r ! i) - 1) (drop (Suc (fst (buf_meta ! r ! i))) buf)) = Inr v \<and>
                   rows ! r ! i =
                     (if promo then (if present (buf ! fst (buf_meta ! r ! i)) then widen v
                                     else sentinel (type_name (fs ! i)))
                      else PairV (buf ! fst (buf_meta ! r ! i)) v)))))"
proof -
  from dec obtain bm where scan: "scan_content (itemsize rule) fs buf 0 [] = Some (Inr bm)"
    and pop: "populate frombytes fs buf promo bm = Inr rows"
    by (auto simp: decode_def split: option.splits sum.splits)
  from scan_content_rounds [OF scan] obtain e where rd: "rounds (length buf) 0 bm e"
    and meta: "\<forall>meta \<in> set bm. length meta = length fs \<and>
      (\<forall>i<length fs. itemsize rule (fs ! i) buf (fst (meta ! i)) = Inr (snd (meta ! i)))"
    by blast
  from meta have lens: "\<forall>meta \<in> set bm. length meta = length fs" by blast
  from populate_nth [OF pop lens] have len: "length rows = length bm"
    and vals: "\<forall>r<length bm. length (rows ! r) = length fs \<and>
            (\<forall>i<length fs. frombytes (fs ! i) buf (fst (bm ! r ! i)) (snd (bm ! r ! i)) promo = Inr (rows ! r ! i))"
    by auto
  have field: "itemsize rule (fs ! i) buf (fst (bm ! r ! i)) = Inr (snd (bm ! r ! i)) \<and>
           frombytes (fs ! i) buf (fst (bm ! r ! i)) (snd (bm ! r ! i)) promo = Inr (rows ! r ! i) \<and>
           (\<not> not_null (fs ! i) \<longrightarrow>
              (\<exists>v. interp (type_name (fs ! i))
                      (take (snd (bm ! r ! i) - 1) (drop (Suc (fst (bm ! r ! i))) buf)) = Inr v \<and>
                   rows ! r ! i =
                     (if promo then (if present (buf ! fst (bm ! r ! i)) then widen v
                                     else sentinel (type_name (fs ! i)))
                      else PairV (buf ! fst (bm ! r ! i)) v)))"
    if r: "r < length bm" and i: "i < length fs" for r i
  proof -
    from r have "bm ! r \<in> set bm" by simp
    with meta i have sz: "itemsize rule (fs ! i) buf (fst (bm ! r ! i)) = Inr (snd (bm ! r ! i))"
      by blast
    from vals r i have fb: "frombytes (fs ! i) buf (fst (bm ! r ! i)) (snd (bm ! r ! i)) promo = Inr (rows ! r ! i)"
      by blast
    have "\<exists>v. interp (type_name (fs ! i))
                      (take (snd (bm ! r ! i) - 1) (drop (Suc (fst (bm ! r ! i))) buf)) = Inr v \<and>
                   rows ! r ! i =
                     (if promo then (if present (buf ! fst (bm ! r ! i)) then widen v
                                     else sentinel (type_name (fs ! i)))
                      else PairV (buf ! fst (bm ! r ! i)) v)"
      if nn: "\<not> not_null (fs ! i)"
    proof -
      from frombytes_measured [OF sz, of buf "fst (bm ! r ! i)" promo] fb
      have inb: "fst (bm ! r ! i) + snd (bm ! r ! i) \<le> length buf" by auto
      from itemsize_nullable_pos [OF nn sz] have pos: "0 < snd (bm ! r ! i)" .
      from frombytes_nullable [OF nn inb pos, of promo] fb show ?thesis
        by (cases "interp (type_name (fs ! i))
              (take (snd (bm ! r ! i) - 1) (drop (Suc (fst (bm ! r ! i))) buf))") simp_all
    qed
    with sz fb show ?thesis by blast
  qed
  have "\<forall>r<length bm. length (bm ! r) = length fs \<and> length (rows ! r) = length fs \<and>
        (\<forall>i<length fs.
           itemsize rule (fs ! i) buf (fst (bm ! r ! i)) = Inr (snd (bm ! r ! i)) \<and>
           frombytes (fs ! i) buf (fst (bm ! r ! i)) (snd (bm ! r ! i)) promo =
             Inr (rows ! r ! i) \<and>
           (\<not> not_null (fs ! i) \<longrightarrow>
              (\<exists>v. interp (type_name (fs ! i))
                      (take (snd (bm ! r ! i) - 1) (drop (Suc (fst (bm ! r ! i))) buf)) = Inr v \<and>
                   rows ! r ! i =
                     (if promo then (if present (buf ! fst (bm ! r ! i)) then widen v
                                     else sentinel (type_name (fs ! i)))
                      else PairV (buf ! fst (bm ! r ! i)) v))))"
    using lens vals field by simp
  with scan rd len show ?thesis by blast
qed

text \<open>
  Claim C1. A decoding that returns rows has made two passes. The first started at offset
  0 and, round by round while the offset was below the length of the buffer, measured the
  fields in descriptor order, each with \<^verbatim>\<open>itemsize\<close> at the running offset, recorded
  the pair of offset and width and moved on by the width. The second read each field of
  each record with \<^verbatim>\<open>frombytes\<close> at its recorded pair; for a nullable field the first
  byte there is the null indicator and the value is read from the bytes that remain.
\<close>

theorem decode_two_passes:
  assumes dec: "decode (itemsize rule) frombytes fs buf promo = Some (Inr rows)"
  shows "\<exists>buf_meta e.
     scan_content (itemsize rule) fs buf 0 [] = Some (Inr buf_meta) \<and>
     rounds (length buf) 0 buf_meta e \<and>
     length rows = length buf_meta \<and>
     (\<forall>r<length buf_meta. length (buf_meta ! r) = length fs \<and> length (rows ! r) = length fs \<and>
        (\<forall>i<length fs.
           itemsize rule (fs ! i) buf (fst (buf_meta ! r ! i)) = Inr (snd (buf_meta ! r ! i)) \<and>
           frombytes (fs ! i) buf (fst (buf_meta ! r ! i)) (snd (buf_meta ! r ! i)) promo =
             Inr (rows ! r ! i) \<and>
           (\<not> not_null (fs ! i) \<longrightarrow>
              (\<exists>v. interp (type_name (fs ! i))
                      (take (snd (buf_meta ! r ! i) - 1) (drop (Suc (fst (buf_meta ! r ! i))) buf)) = Inr v \<and>
                   rows ! r ! i =
                     (if promo then (if present (buf ! fst (buf_meta ! r ! i)) then widen v
                                     else sentinel (type_name (fs ! i)))
                      else PairV (buf ! fst (buf_meta ! r ! i)) v)))))"
  using dec by (rule decode_fields)

text \<open>The download of \<^verbatim>\<open>scan(foo)\<close>, decoded as the documentation shows it.\<close>

theorem decode_two_passes_witness:
  "decode (itemsize no_rule) frombytes [field_i, field_x] buf_foo False =
     Some (Inr [[IntV 0, PairV 255 (IntV 0)], [IntV 1, PairV 255 (IntV 1)],
                [IntV 2, PairV 255 (IntV 2)]]) \<and>
   (\<exists>buf_meta e.
      scan_content (itemsize no_rule) [field_i, field_x] buf_foo 0 [] = Some (Inr buf_meta) \<and>
      rounds (length buf_foo) 0 buf_meta e \<and> length buf_meta = 3) \<and>
   \<not> not_null ([field_i, field_x] ! 1) \<and>
   itemsize no_rule field_x buf_foo 25 = Inr 9 \<and>
   frombytes field_x buf_foo 25 9 False = Inr (PairV 255 (IntV 1)) \<and>
   (\<exists>v. interp (type_name field_x) (take (9 - 1) (drop (Suc 25) buf_foo)) = Inr v \<and>
        PairV 255 (IntV 1) = PairV (buf_foo ! 25) v)"
proof -
  let ?rows = "[[IntV 0, PairV 255 (IntV 0)], [IntV 1, PairV 255 (IntV 1)],
                [IntV 2, PairV 255 (IntV 2)]]"
  let ?bm = "[[(0, 8), (8, 9)], [(17, 8), (25, 9)], [(34, 8), (42, 9)]] :: meta list"
  have h: "decode (itemsize no_rule) frombytes [field_i, field_x] buf_foo False = Some (Inr ?rows)"
    by code_simp
  have s: "scan_content (itemsize no_rule) [field_i, field_x] buf_foo 0 [] = Some (Inr ?bm)"
    by code_simp
  have nn: "\<not> not_null ([field_i, field_x] ! 1)" by (simp add: field_x_def)
  from decode_two_passes [OF h] s obtain e where
    rd: "rounds (length buf_foo) 0 ?bm e"
    and fld: "\<forall>r<length ?bm. length (?bm ! r) = length [field_i, field_x] \<and>
        length (?rows ! r) = length [field_i, field_x] \<and>
        (\<forall>i<length [field_i, field_x].
           itemsize no_rule ([field_i, field_x] ! i) buf_foo (fst (?bm ! r ! i)) = Inr (snd (?bm ! r ! i)) \<and>
           frombytes ([field_i, field_x] ! i) buf_foo (fst (?bm ! r ! i)) (snd (?bm ! r ! i)) False =
             Inr (?rows ! r ! i) \<and>
           (\<not> not_null ([field_i, field_x] ! i) \<longrightarrow>
              (\<exists>v. interp (type_name ([field_i, field_x] ! i))
                      (take (snd (?bm ! r ! i) - 1) (drop (Suc (fst (?bm ! r ! i))) buf_foo)) = Inr v \<and>
                   ?rows ! r ! i =
                     (if False then (if present (buf_foo ! fst (?bm ! r ! i)) then widen v
                                     else sentinel (type_name ([field_i, field_x] ! i)))
                      else PairV (buf_foo ! fst (?bm ! r ! i)) v))))"
    by auto
  have r: "(1::nat) < length ?bm" and i: "(1::nat) < length [field_i, field_x]" by simp_all
  from fld r i nn
  have "itemsize no_rule ([field_i, field_x] ! 1) buf_foo (fst (?bm ! 1 ! 1)) = Inr (snd (?bm ! 1 ! 1)) \<and>
        frombytes ([field_i, field_x] ! 1) buf_foo (fst (?bm ! 1 ! 1)) (snd (?bm ! 1 ! 1)) False =
             Inr (?rows ! 1 ! 1) \<and>
        (\<exists>v. interp (type_name ([field_i, field_x] ! 1))
                      (take (snd (?bm ! 1 ! 1) - 1) (drop (Suc (fst (?bm ! 1 ! 1))) buf_foo)) = Inr v \<and>
              ?rows ! 1 ! 1 = PairV (buf_foo ! fst (?bm ! 1 ! 1)) v)"
    by (metis (full_types))
  then have f: "itemsize no_rule field_x buf_foo 25 = Inr 9 \<and>
       frombytes field_x buf_foo 25 9 False = Inr (PairV 255 (IntV 1)) \<and>
       (\<exists>v. interp (type_name field_x) (take (9 - 1) (drop (Suc 25) buf_foo)) = Inr v \<and>
            PairV 255 (IntV 1) = PairV (buf_foo ! 25) v)"
    by simp
  from h s rd nn f show ?thesis by auto
qed

section \<open>Nullable values\<close>

text \<open>
  Claim C3, as amended. For a nullable field that lies within the buffer at its recorded
  offset and width, the value bytes are read per the type tag, and without promotion the
  decoded value is the pair of the indicator byte and that value, whatever the indicator.
  With promotion the field holds that value, widened, when the indicator is 255, and the
  sentinel of its type for any other indicator; an \<open>int64\<close> is widened to floating
  point, its sentinel is NaN, and its column is a floating-point column.
\<close>

theorem nullable_field_value:
  assumes nn: "\<not> not_null att" and sz: "itemsize rule att buf off = Inr sz"
    and inb: "off + sz \<le> length buf"
  shows "\<exists>v. interp (type_name att) (take (sz - 1) (drop (Suc off) buf)) = Inr v \<and>
           frombytes att buf off sz False = Inr (PairV (buf ! off) v) \<and>
           frombytes att buf off sz True =
             Inr (if buf ! off = 255 then widen v else sentinel (type_name att)) \<and>
           (type_name att = TInt64 \<longrightarrow>
              (\<exists>i. v = IntV i \<and> widen v = FloatV i) \<and> sentinel (type_name att) = NaN \<and>
              promo_col (type_name att) = CFloat64)"
proof -
  from itemsize_nullable_pos [OF nn sz] have pos: "0 < sz" .
  let ?payload = "take (sz - 1) (drop (Suc off) buf)"
  from frombytes_measured [OF sz, of buf off False] inb
  obtain x where x: "frombytes att buf off sz False = Inr x" by auto
  with frombytes_nullable [OF nn inb pos, of False]
  obtain v where v: "interp (type_name att) ?payload = Inr v"
    by (cases "interp (type_name att) ?payload") simp_all
  from v frombytes_nullable [OF nn inb pos, of False]
  have raw: "frombytes att buf off sz False = Inr (PairV (buf ! off) v)" by simp
  from v frombytes_nullable [OF nn inb pos, of True]
  have pro: "frombytes att buf off sz True =
             Inr (if buf ! off = 255 then widen v else sentinel (type_name att))"
    by (simp add: present_def)
  have int: "(\<exists>i. v = IntV i \<and> widen v = FloatV i) \<and> sentinel (type_name att) = NaN \<and>
              promo_col (type_name att) = CFloat64" if "type_name att = TInt64"
    using that v by (auto split: if_splits)
  from v raw pro int show ?thesis by blast
qed

text \<open>
  The second cell of the documentation's download (indicator 255, value 1), and a cell with
  another indicator.
\<close>

theorem nullable_field_value_witness:
  "\<not> not_null field_x \<and> itemsize no_rule field_x buf_foo_atts 9 = Inr 9 \<and>
   9 + 9 \<le> length buf_foo_atts \<and>
   frombytes field_x buf_foo_atts 9 9 False = Inr (PairV 255 (IntV 1)) \<and>
   frombytes field_x buf_foo_atts 9 9 True = Inr (FloatV 1) \<and>
   itemsize no_rule field_x buf_null 0 = Inr 9 \<and> 0 + 9 \<le> length buf_null \<and>
   frombytes field_x buf_null 0 9 False = Inr (PairV 1 (IntV 7)) \<and>
   frombytes field_x buf_null 0 9 True = Inr NaN"
proof -
  have a: "\<not> not_null field_x" by (simp add: field_x_def)
  have b: "itemsize no_rule field_x buf_foo_atts 9 = Inr 9" by code_simp
  have c: "9 + 9 \<le> length buf_foo_atts" by code_simp
  have d: "buf_foo_atts ! 9 = 255" by code_simp
  have e: "interp (type_name field_x) (take (9 - 1) (drop (Suc 9) buf_foo_atts)) = Inr (IntV 1)"
    by code_simp
  have b': "itemsize no_rule field_x buf_null 0 = Inr 9" by code_simp
  have c': "0 + 9 \<le> length buf_null" by code_simp
  have d': "buf_null ! 0 = 1" by code_simp
  have e': "interp (type_name field_x) (take (9 - 1) (drop (Suc 0) buf_null)) = Inr (IntV 7)"
    by code_simp
  have t: "type_name field_x = TInt64" by (simp add: field_x_def)
  from nullable_field_value [OF a b c] d e
  have 1: "frombytes field_x buf_foo_atts 9 9 False = Inr (PairV 255 (IntV 1)) \<and>
           frombytes field_x buf_foo_atts 9 9 True = Inr (FloatV 1)"
    by auto
  from nullable_field_value [OF a b' c'] d' e' t
  have 2: "frombytes field_x buf_null 0 9 False = Inr (PairV 1 (IntV 7)) \<and>
           frombytes field_x buf_null 0 9 True = Inr NaN"
    by auto
  from a b c b' c' 1 2 show ?thesis by blast
qed

text \<open>
  Claim C3 as stated fails on the documentation's own download: the indicator of each
  cell is 255, which is not 0, and with promotion the column holds the values 0, 1 and 2
  as floating-point numbers, not the sentinel.
\<close>

theorem promoted_present_value_is_not_sentinel:
  "decode (itemsize no_rule) frombytes [field_x] buf_foo_atts True =
     Some (Inr [[FloatV 0], [FloatV 1], [FloatV 2]]) \<and>
   decode (itemsize no_rule) frombytes [field_x] buf_foo_atts False =
     Some (Inr [[PairV 255 (IntV 0)], [PairV 255 (IntV 1)], [PairV 255 (IntV 2)]]) \<and>
   (255 :: byte) \<noteq> 0 \<and> FloatV 0 \<noteq> sentinel TInt64"
  by code_simp

section \<open>Field names\<close>

subsection \<open>Fresh dimension names\<close>







lemma make_dims_unique_atts: "atts (snd (make_dims_unique sch)) = atts sch"
  by (cases "rename_dims (map name (atts sch)) [] (dims sch)") (simp add: make_dims_unique_def)

lemma make_dims_unique_dims:
  "dims (snd (make_dims_unique sch)) = snd (rename_dims (map name (atts sch)) [] (dims sch))"
  by (cases "rename_dims (map name (atts sch)) [] (dims sch)") (simp add: make_dims_unique_def)

lemma unpack_atts:
  "atts (snd (unpack m q sch)) =
     map dim_att (dims (snd (make_dims_unique sch))) @ atts sch"
proof -
  obtain b sch1 where u: "make_dims_unique sch = (b, sch1)" by (cases "make_dims_unique sch")
  with make_dims_unique_atts [of sch] have "atts sch1 = atts sch" by simp
  with u show ?thesis by (simp add: unpack_def Let_def make_dims_atts_def)
qed


subsection \<open>Names play no part in the decoding\<close>










section \<open>What a fetch returns\<close>

lemma iquery_fetch_Inr:
  assumes ret: "iquery tr m self q opts log = Some (Inr res, log')" and f: "fetch opts"
  shows "\<exists>sch0 buf rows ident log1 log2.
           resolve_schema tr m self ident q (schema opts) log1 = (Inr sch0, log2) \<and>
           decode (itemsize (var_rule m)) frombytes
             (atts (if atts_only opts then sch0 else snd (unpack m q sch0))) buf
             (as_dataframe opts \<and> dataframe_promo opts) = Some (Inr rows) \<and>
           res = materialize (if atts_only opts then sch0 else snd (unpack m q sch0))
                   (as_dataframe opts) (dataframe_promo opts) rows"
proof -
  obtain x0 l1 where s0: "shim tr self new_session [] log = (x0, l1)"
    by (cases "shim tr self new_session [] log")
  with ret obtain r0 where x0: "x0 = Inr r0" by (cases x0) (simp_all add: iquery_def)
  obtain y l2 where rs: "resolve_schema tr m self (resp_text r0) q (schema opts) l1 = (y, l2)"
    by (cases "resolve_schema tr m self (resp_text r0) q (schema opts) l1")
  with ret s0 x0 f obtain sch0 where y: "y = Inr sch0" by (cases y) (simp_all add: iquery_def)
  define sch where "sch = (if atts_only opts then sch0 else snd (unpack m q sch0))"
  define q' where "q' = (if atts_only opts then q else fst (unpack m q sch0))"
  have pair: "(if \<not> atts_only opts then unpack m q sch0 else (q, sch0)) = (q', sch)"
    by (simp add: sch_def q'_def)
  let ?kw = "[(''id'', PStr (resp_text r0)), (''query'', PStr q'), (''save'', PStr (atts_fmt m sch))]"
  obtain x3 l3 where s3: "shim tr self execute_query ?kw l2 = (x3, l3)"
    by (cases "shim tr self execute_query ?kw l2")
  with ret s0 x0 f rs y pair obtain r3 where x3: "x3 = Inr r3"
    by (cases x3) (simp_all add: iquery_def)
  obtain x4 l4 where s4: "shim tr self read_bytes [(''id'', PStr (resp_text r0)), (''n'', PInt 0)] l3 = (x4, l4)"
    by (cases "shim tr self read_bytes [(''id'', PStr (resp_text r0)), (''n'', PInt 0)] l3")
  with ret s0 x0 f rs y pair s3 x3 obtain r4 where x4: "x4 = Inr r4"
    by (cases x4) (simp_all add: iquery_def)
  obtain x5 l5 where s5: "shim tr self release_session [(''id'', PStr (resp_text r0))] l4 = (x5, l5)"
    by (cases "shim tr self release_session [(''id'', PStr (resp_text r0))] l4")
  with ret s0 x0 f rs y pair s3 x3 s4 x4 obtain r5 where x5: "x5 = Inr r5"
    by (cases x5) (simp_all add: iquery_def)
  let ?d = "decode (itemsize (var_rule m)) frombytes (atts sch) (resp_content r4)
              (as_dataframe opts \<and> dataframe_promo opts)"
  from ret s0 x0 f rs y pair s3 x3 s4 x4 s5 x5
  have fin: "(case ?d of None \<Rightarrow> None
              | Some (Inl e) \<Rightarrow> Some (Inl e, l5)
              | Some (Inr rows) \<Rightarrow>
                  Some (Inr (materialize sch (as_dataframe opts) (dataframe_promo opts) rows), l5))
             = Some (Inr res, log')"
    by (simp add: iquery_def)
  then obtain rows where d: "?d = Some (Inr rows)"
    and res: "res = materialize sch (as_dataframe opts) (dataframe_promo opts) rows"
    by (auto split: option.splits sum.splits)
  from rs y d res show ?thesis unfolding sch_def by blast
qed


lemma rename_dims_length: "length (snd (rename_dims an seen ds)) = length seen + length ds"
  by (induction ds arbitrary: seen) (simp_all add: Let_def)

lemma materialize_names:
  "\<exists>dtype. (materialize sch as_df promo rows = Ndarray dtype rows \<or>
            materialize sch as_df promo rows = DataFrame dtype rows) \<and>
           map fst dtype = map name (atts sch)"
  by (simp add: materialize_def Let_def atts_dtype_def get_promo_atts_dtype_def comp_def)

text \<open>
  Claim C5. A fetch that returns has decoded with the fields of the resolved schema: with
  \<^verbatim>\<open>atts_only\<close> false these are the dimensions, as many as the schema has and in its
  order, followed by the attributes in their order; with \<^verbatim>\<open>atts_only\<close> true they are
  the attributes alone. Each record has one value per field, and the columns of the result
  have the names of these fields in this order.
\<close>

theorem record_field_order:
  assumes "iquery tr m self q opts log = Some (Inr res, log')" and "fetch opts"
  shows "\<exists>sch0 fs buf rows dtype ident log1 log2.
     resolve_schema tr m self ident q (schema opts) log1 = (Inr sch0, log2) \<and>
     fs = (if atts_only opts then atts sch0
           else map dim_att (dims (snd (make_dims_unique sch0))) @ atts sch0) \<and>
     length (dims (snd (make_dims_unique sch0))) = length (dims sch0) \<and>
     decode (itemsize (var_rule m)) frombytes fs buf
       (as_dataframe opts \<and> dataframe_promo opts) = Some (Inr rows) \<and>
     (res = Ndarray dtype rows \<or> res = DataFrame dtype rows) \<and>
     map fst dtype = map name fs \<and>
     (\<forall>row \<in> set rows. length row = length fs)"
proof -
  from iquery_fetch_Inr [OF assms] obtain sch0 buf rows ident log1 log2 where
    rs: "resolve_schema tr m self ident q (schema opts) log1 = (Inr sch0, log2)"
    and d: "decode (itemsize (var_rule m)) frombytes
             (atts (if atts_only opts then sch0 else snd (unpack m q sch0))) buf
             (as_dataframe opts \<and> dataframe_promo opts) = Some (Inr rows)"
    and res: "res = materialize (if atts_only opts then sch0 else snd (unpack m q sch0))
                   (as_dataframe opts) (dataframe_promo opts) rows"
    by blast
  define sch where "sch = (if atts_only opts then sch0 else snd (unpack m q sch0))"
  define fs where "fs = (if atts_only opts then atts sch0
           else map dim_att (dims (snd (make_dims_unique sch0))) @ atts sch0)"
  have fs: "atts sch = fs" by (simp add: sch_def fs_def unpack_atts)
  have len: "length (dims (snd (make_dims_unique sch0))) = length (dims sch0)"
    by (simp add: make_dims_unique_dims rename_dims_length)
  from d fs have d': "decode (itemsize (var_rule m)) frombytes fs buf
       (as_dataframe opts \<and> dataframe_promo opts) = Some (Inr rows)" by (simp add: sch_def)
  from decode_fields [OF d'] have rl: "\<forall>row \<in> set rows. length row = length fs"
    by (auto simp: in_set_conv_nth)
  from materialize_names [of sch "as_dataframe opts" "dataframe_promo opts" rows] res fs
  obtain dtype where "res = Ndarray dtype rows \<or> res = DataFrame dtype rows"
    and "map fst dtype = map name fs" by (auto simp: sch_def)
  with rs len d' rl show ?thesis unfolding fs_def by blast
qed

text \<open>
  The two downloads of \<^verbatim>\<open>scan(foo)\<close> in the documentation: \<^verbatim>\<open>i\<close> then \<^verbatim>\<open>x\<close>, and
  \<^verbatim>\<open>x\<close> alone.
\<close>

theorem record_field_order_witness:
  "fetch opts_fetch \<and> \<not> atts_only opts_fetch \<and>
   map_option fst (iquery (content_transport buf_foo) mod0 db0 ''scan(foo)'' opts_fetch []) =
     Some (Inr (Ndarray [(''i'', CInt64), (''x'', CNullPair CInt64)]
                  [[IntV 0, PairV 255 (IntV 0)], [IntV 1, PairV 255 (IntV 1)],
                   [IntV 2, PairV 255 (IntV 2)]])) \<and>
   (\<exists>fs buf. decode (itemsize (var_rule mod0)) frombytes fs buf False =
       Some (Inr [[IntV 0, PairV 255 (IntV 0)], [IntV 1, PairV 255 (IntV 1)],
                  [IntV 2, PairV 255 (IntV 2)]]) \<and>
      map name fs = [''i'', ''x'']) \<and>
   fetch opts_atts \<and> atts_only opts_atts \<and>
   map_option fst (iquery (content_transport buf_foo_atts) mod0 db0 ''scan(foo)'' opts_atts []) =
     Some (Inr (Ndarray [(''x'', CNullPair CInt64)]
                  [[PairV 255 (IntV 0)], [PairV 255 (IntV 1)], [PairV 255 (IntV 2)]])) \<and>
   (\<exists>fs buf. decode (itemsize (var_rule mod0)) frombytes fs buf False =
       Some (Inr [[PairV 255 (IntV 0)], [PairV 255 (IntV 1)], [PairV 255 (IntV 2)]]) \<and>
      map name fs = [''x''])"
proof -
  let ?R1 = "Ndarray [(''i'', CInt64), (''x'', CNullPair CInt64)]
                  [[IntV 0, PairV 255 (IntV 0)], [IntV 1, PairV 255 (IntV 1)],
                   [IntV 2, PairV 255 (IntV 2)]]"
  let ?R2 = "Ndarray [(''x'', CNullPair CInt64)]
                  [[PairV 255 (IntV 0)], [PairV 255 (IntV 1)], [PairV 255 (IntV 2)]]"
  have f1: "fetch opts_fetch" and a1: "\<not> atts_only opts_fetch"
    and p1: "\<not> (as_dataframe opts_fetch \<and> dataframe_promo opts_fetch)"
    by (simp_all add: opts_fetch_def iquery_defaults_def)
  have f2: "fetch opts_atts" and a2: "atts_only opts_atts"
    and p2: "\<not> (as_dataframe opts_atts \<and> dataframe_promo opts_atts)"
    by (simp_all add: opts_atts_def opts_fetch_def iquery_defaults_def)
  have h1: "map_option fst (iquery (content_transport buf_foo) mod0 db0 ''scan(foo)'' opts_fetch [])
              = Some (Inr ?R1)"
    by code_simp
  have h2: "map_option fst (iquery (content_transport buf_foo_atts) mod0 db0 ''scan(foo)'' opts_atts [])
              = Some (Inr ?R2)"
    by code_simp
  from h1 obtain l1 where i1: "iquery (content_transport buf_foo) mod0 db0 ''scan(foo)'' opts_fetch []
      = Some (Inr ?R1, l1)" by (cases "iquery (content_transport buf_foo) mod0 db0 ''scan(foo)'' opts_fetch []") auto
  from h2 obtain l2 where i2: "iquery (content_transport buf_foo_atts) mod0 db0 ''scan(foo)'' opts_atts []
      = Some (Inr ?R2, l2)" by (cases "iquery (content_transport buf_foo_atts) mod0 db0 ''scan(foo)'' opts_atts []") auto
  from record_field_order [OF i1 f1] p1
  have 1: "\<exists>fs buf. decode (itemsize (var_rule mod0)) frombytes fs buf False =
       Some (Inr [[IntV 0, PairV 255 (IntV 0)], [IntV 1, PairV 255 (IntV 1)],
                  [IntV 2, PairV 255 (IntV 2)]]) \<and>
      map name fs = [''i'', ''x'']"
    by fastforce
  from record_field_order [OF i2 f2] p2
  have 2: "\<exists>fs buf. decode (itemsize (var_rule mod0)) frombytes fs buf False =
       Some (Inr [[PairV 255 (IntV 0)], [PairV 255 (IntV 1)], [PairV 255 (IntV 2)]]) \<and>
      map name fs = [''x'']"
    by fastforce
  from f1 a1 h1 1 f2 a2 h2 2 show ?thesis by blast
qed

text \<open>
  Claim C6. The flag \<^verbatim>\<open>dataframe_promo\<close> is true by default. A fetch with the flag
  false that returns has a result whose column type for each nullable field is the pair
  of null byte and value, and whose every row holds for that field the raw pair: the
  indicator byte found at the field's recorded offset, and the value read from the bytes
  after it.
\<close>

theorem promotion_flag_default_and_raw_pairs:
  "dataframe_promo iquery_defaults \<and>
   (iquery tr m self q opts log = Some (Inr res, log') \<and> fetch opts \<and> \<not> dataframe_promo opts \<longrightarrow>
      (\<exists>sch buf buf_meta rows.
          scan_content (itemsize (var_rule m)) (atts sch) buf 0 [] = Some (Inr buf_meta) \<and>
          res = (if as_dataframe opts then DataFrame (atts_dtype sch) rows
                 else Ndarray (atts_dtype sch) rows) \<and>
          length rows = length buf_meta \<and>
          (\<forall>r<length rows. \<forall>i<length (atts sch). \<not> not_null (atts sch ! i) \<longrightarrow>
             snd (atts_dtype sch ! i) = CNullPair (base_col (type_name (atts sch ! i))) \<and>
             (\<exists>v. interp (type_name (atts sch ! i))
                     (take (snd (buf_meta ! r ! i) - 1) (drop (Suc (fst (buf_meta ! r ! i))) buf))
                     = Inr v \<and>
                  rows ! r ! i = PairV (buf ! fst (buf_meta ! r ! i)) v))))"
proof -
  have dflt: "dataframe_promo iquery_defaults" by (simp add: iquery_defaults_def)
  have raw: "\<exists>sch buf buf_meta rows.
          scan_content (itemsize (var_rule m)) (atts sch) buf 0 [] = Some (Inr buf_meta) \<and>
          res = (if as_dataframe opts then DataFrame (atts_dtype sch) rows
                 else Ndarray (atts_dtype sch) rows) \<and>
          length rows = length buf_meta \<and>
          (\<forall>r<length rows. \<forall>i<length (atts sch). \<not> not_null (atts sch ! i) \<longrightarrow>
             snd (atts_dtype sch ! i) = CNullPair (base_col (type_name (atts sch ! i))) \<and>
             (\<exists>v. interp (type_name (atts sch ! i))
                     (take (snd (buf_meta ! r ! i) - 1) (drop (Suc (fst (buf_meta ! r ! i))) buf))
                     = Inr v \<and>
                  rows ! r ! i = PairV (buf ! fst (buf_meta ! r ! i)) v))"
    if ret: "iquery tr m self q opts log = Some (Inr res, log')" and f: "fetch opts"
      and np: "\<not> dataframe_promo opts"
  proof -
    from iquery_fetch_Inr [OF ret f] obtain sch0 buf rows where
      d: "decode (itemsize (var_rule m)) frombytes
             (atts (if atts_only opts then sch0 else snd (unpack m q sch0))) buf
             (as_dataframe opts \<and> dataframe_promo opts) = Some (Inr rows)"
      and res: "res = materialize (if atts_only opts then sch0 else snd (unpack m q sch0))
                   (as_dataframe opts) (dataframe_promo opts) rows"
      by blast
    define sch where "sch = (if atts_only opts then sch0 else snd (unpack m q sch0))"
    from d np have d': "decode (itemsize (var_rule m)) frombytes (atts sch) buf False = Some (Inr rows)"
      by (simp add: sch_def)
    from res np have res': "res = (if as_dataframe opts then DataFrame (atts_dtype sch) rows
                 else Ndarray (atts_dtype sch) rows)"
      by (simp add: sch_def materialize_def)
    from decode_fields [OF d'] obtain bm e where
      scan: "scan_content (itemsize (var_rule m)) (atts sch) buf 0 [] = Some (Inr bm)"
      and len: "length rows = length bm"
      and fld: "\<forall>r<length bm. length (bm ! r) = length (atts sch) \<and> length (rows ! r) = length (atts sch) \<and>
        (\<forall>i<length (atts sch).
           itemsize (var_rule m) (atts sch ! i) buf (fst (bm ! r ! i)) = Inr (snd (bm ! r ! i)) \<and>
           frombytes (atts sch ! i) buf (fst (bm ! r ! i)) (snd (bm ! r ! i)) False =
             Inr (rows ! r ! i) \<and>
           (\<not> not_null (atts sch ! i) \<longrightarrow>
              (\<exists>v. interp (type_name (atts sch ! i))
                      (take (snd (bm ! r ! i) - 1) (drop (Suc (fst (bm ! r ! i))) buf)) = Inr v \<and>
                   rows ! r ! i =
                     (if False then (if present (buf ! fst (bm ! r ! i)) then widen v
                                     else sentinel (type_name (atts sch ! i)))
                      else PairV (buf ! fst (bm ! r ! i)) v))))"
      by blast
    have col: "snd (atts_dtype sch ! i) = CNullPair (base_col (type_name (atts sch ! i)))"
      if "i < length (atts sch)" "\<not> not_null (atts sch ! i)" for i
      using that by (simp add: atts_dtype_def)
    have "\<forall>r<length rows. \<forall>i<length (atts sch). \<not> not_null (atts sch ! i) \<longrightarrow>
             snd (atts_dtype sch ! i) = CNullPair (base_col (type_name (atts sch ! i))) \<and>
             (\<exists>v. interp (type_name (atts sch ! i))
                     (take (snd (bm ! r ! i) - 1) (drop (Suc (fst (bm ! r ! i))) buf))
                     = Inr v \<and>
                  rows ! r ! i = PairV (buf ! fst (bm ! r ! i)) v)"
      using fld len col by simp
    with scan res' len show ?thesis by blast
  qed
  from dflt raw show ?thesis by blast
qed

text \<open>
  The documentation's data frame without promotion: \<^verbatim>\<open>(255, 0)\<close>, \<^verbatim>\<open>(255, 1)\<close>,
  \<^verbatim>\<open>(255, 2)\<close>.
\<close>

theorem promotion_flag_default_and_raw_pairs_witness:
  "dataframe_promo iquery_defaults \<and>
   fetch opts_raw_frame \<and> \<not> dataframe_promo opts_raw_frame \<and>
   map_option fst (iquery (content_transport buf_foo_atts) mod0 db0 ''scan(foo)'' opts_raw_frame [])
     = Some (Inr (DataFrame [(''x'', CNullPair CInt64)]
                    [[PairV 255 (IntV 0)], [PairV 255 (IntV 1)], [PairV 255 (IntV 2)]])) \<and>
   (\<exists>sch buf buf_meta.
      scan_content (itemsize (var_rule mod0)) (atts sch) buf 0 [] = Some (Inr buf_meta) \<and>
      atts_dtype sch = [(''x'', CNullPair CInt64)] \<and> length buf_meta = 3)"
proof -
  let ?R = "DataFrame [(''x'', CNullPair CInt64)]
                    [[PairV 255 (IntV 0)], [PairV 255 (IntV 1)], [PairV 255 (IntV 2)]]"
  have f: "fetch opts_raw_frame" and np: "\<not> dataframe_promo opts_raw_frame"
    and df: "as_dataframe opts_raw_frame"
    by (simp_all add: opts_raw_frame_def opts_atts_def opts_fetch_def iquery_defaults_def)
  have h: "map_option fst (iquery (content_transport buf_foo_atts) mod0 db0 ''scan(foo)'' opts_raw_frame [])
              = Some (Inr ?R)"
    by code_simp
  then obtain l where i: "iquery (content_transport buf_foo_atts) mod0 db0 ''scan(foo)'' opts_raw_frame []
      = Some (Inr ?R, l)"
    by (cases "iquery (content_transport buf_foo_atts) mod0 db0 ''scan(foo)'' opts_raw_frame []") auto
  note t = promotion_flag_default_and_raw_pairs [of "content_transport buf_foo_atts" mod0 db0
      "''scan(foo)''" opts_raw_frame "[]" ?R l]
  from t have d: "dataframe_promo iquery_defaults" by blast
  from t i f np df
  have "\<exists>sch buf buf_meta.
      scan_content (itemsize (var_rule mod0)) (atts sch) buf 0 [] = Some (Inr buf_meta) \<and>
      atts_dtype sch = [(''x'', CNullPair CInt64)] \<and> length buf_meta = 3"
    by fastforce
  with d f np h show ?thesis by blast
qed

end
